theory Spec2Isabelle
  imports Complex_Main "HOL-Library.Sublist"
begin

section \<open>Strings and the tokenizer\<close>

text \<open>
  JavaScript strings are sequences of UTF-16 code units. The model uses HOL strings
  (lists of 8-bit characters), read as the code units below 256. On that range
  \<open>toLowerCase\<close> shifts \<open>A-Z\<close> and the Latin-1 capitals (192 to 222 except 215) by 32
  and the regular expression class \<open>\s\<close> holds the code units 9 to 13, 32 and 160.
\<close>

definition toLowerChar :: "char \<Rightarrow> char" where
  "toLowerChar c =
     (let n = (of_char c :: nat)
      in if (65 \<le> n \<and> n \<le> 90) \<or> (192 \<le> n \<and> n \<le> 222 \<and> n \<noteq> 215)
         then char_of (n + 32) else c)"

definition toLowerCase :: "string \<Rightarrow> string" where
  "toLowerCase text = map toLowerChar text"

definition isWhitespace :: "char \<Rightarrow> bool" where
  "isWhitespace c =
     (let n = (of_char c :: nat) in (9 \<le> n \<and> n \<le> 13) \<or> n = 32 \<or> n = 160)"

definition isLowerAlnum :: "char \<Rightarrow> bool" where
  "isLowerAlnum c =
     (let n = (of_char c :: nat) in (97 \<le> n \<and> n \<le> 122) \<or> (48 \<le> n \<and> n \<le> 57))"

text \<open>\<open>.replace(/[^a-z0-9\s]/g, ' ')\<close>\<close>

definition replaceNonAlnum :: "string \<Rightarrow> string" where
  "replaceNonAlnum text =
     map (\<lambda>c. if isLowerAlnum c \<or> isWhitespace c then c else CHR '' '') text"

text \<open>
  \<open>.split(/\s+/)\<close>: the pieces between maximal runs of whitespace. As in JavaScript,
  the empty string gives one empty piece, and leading or trailing whitespace gives an
  empty first or last piece.
\<close>

definition startsWithWs :: "string \<Rightarrow> bool" where
  "startsWithWs s = (case s of [] \<Rightarrow> False | d # _ \<Rightarrow> isWhitespace d)"

fun splitWs :: "string \<Rightarrow> string list" where
  "splitWs [] = [[]]"
| "splitWs (c # cs) =
     (if isWhitespace c
      then (if startsWithWs cs then splitWs cs else [] # splitWs cs)
      else (case splitWs cs of
              [] \<Rightarrow> [[c]]
            | w # ws \<Rightarrow> (c # w) # ws))"

definition STOP_WORDS :: "string list" where
  "STOP_WORDS =
     [''the'', ''and'', ''for'', ''are'', ''but'', ''not'', ''you'', ''all'', ''can'', ''had'',
      ''her'', ''was'', ''one'', ''our'', ''out'', ''has'', ''have'', ''from'', ''with'', ''they'',
      ''been'', ''this'', ''that'', ''will'', ''each'', ''make'', ''like'', ''than'', ''them'',
      ''then'', ''its'', ''over'', ''such'', ''other'', ''into'', ''more'', ''some'', ''very'',
      ''when'', ''what'', ''also'', ''only'', ''just'', ''about'', ''which'']"

definition keepWord :: "string \<Rightarrow> bool" where
  "keepWord w = (length w > 2 \<and> w \<notin> set STOP_WORDS)"

definition tokenize :: "string \<Rightarrow> string list" where
  "tokenize text = filter keepWord (splitWs (replaceNonAlnum (toLowerCase text)))"

text \<open>
  The words of a text as the specification describes them: the maximal runs of
  characters that are not whitespace, in order. This definition follows the
  specification's wording and is compared with \<open>splitWs\<close> below.
\<close>

function specWords :: "string \<Rightarrow> string list" where
  "specWords s =
     (case dropWhile isWhitespace s of
        [] \<Rightarrow> []
      | c # cs \<Rightarrow>
          takeWhile (\<lambda>x. \<not> isWhitespace x) (c # cs)
            # specWords (dropWhile (\<lambda>x. \<not> isWhitespace x) cs))"
  by pat_completeness auto
termination
proof (relation "measure length")
  show "wf (measure length)" by simp
next
  fix s :: string and c cs
  assume d: "dropWhile isWhitespace s = c # cs"
  have "length (dropWhile (\<lambda>x. \<not> isWhitespace x) cs) \<le> length cs"
    by (rule length_dropWhile_le)
  moreover have "length (c # cs) \<le> length s"
    using length_dropWhile_le [of isWhitespace s] d by simp
  ultimately show "(dropWhile (\<lambda>x. \<not> isWhitespace x) cs, s) \<in> measure length"
    by simp
qed

declare specWords.simps [simp del]


section \<open>The SOC matching engine\<close>

subsection \<open>Taxonomy entries and the inverted index\<close>

text \<open>
  An entry of \<open>soc_codes.json\<close>. The group labels may be missing; the code reads them as
  \<open>soc.majorGroup || ''\<close>.
\<close>

record soc_entry =
  code :: string
  title :: string
  majorGroup :: "string option"
  minorGroup :: "string option"
  broadGroup :: "string option"

definition orEmpty :: "string option \<Rightarrow> string" where
  "orEmpty x = (case x of None \<Rightarrow> [] | Some s \<Rightarrow> s)"

text \<open>
  \<open>socIndex\<close> is a \<open>Map\<close> from keyword to a \<open>Set\<close> of codes and \<open>socByCode\<close> a \<open>Map\<close>
  from code to entry. Both are only read through \<open>get\<close>, so they are maps here; a
  \<open>Set\<close> of codes is the list of its members in insertion order, which is the order
  \<open>for (const code of matches)\<close> visits them.
\<close>

record engine =
  socCodes :: "soc_entry list"
  socIndex :: "string \<rightharpoonup> string list"
  socByCode :: "string \<rightharpoonup> soc_entry"

fun bigramsOf :: "string list \<Rightarrow> string list" where
  "bigramsOf (a # b # rest) = (a @ ''_'' @ b) # bigramsOf (b # rest)"
| "bigramsOf _ = []"

definition indexAdd :: "(string \<rightharpoonup> string list) \<Rightarrow> string \<Rightarrow> string \<Rightarrow> (string \<rightharpoonup> string list)" where
  "indexAdd idx c token =
     (case idx token of
        None \<Rightarrow> idx(token \<mapsto> [c])
      | Some cs \<Rightarrow> if c \<in> set cs then idx else idx(token \<mapsto> cs @ [c]))"

definition allTextOf :: "soc_entry \<Rightarrow> string" where
  "allTextOf soc =
     title soc @ '' '' @ orEmpty (majorGroup soc) @ '' '' @ orEmpty (minorGroup soc)
       @ '' '' @ orEmpty (broadGroup soc)"

definition indexEntry ::
  "(string \<rightharpoonup> string list) \<times> (string \<rightharpoonup> soc_entry) \<Rightarrow> soc_entry
     \<Rightarrow> (string \<rightharpoonup> string list) \<times> (string \<rightharpoonup> soc_entry)" where
  "indexEntry st soc =
     (let byCode = (snd st)(code soc \<mapsto> soc);
          tokens = tokenize (allTextOf soc);
          bigrams = bigramsOf tokens
      in (foldl (\<lambda>idx token. indexAdd idx (code soc) token) (fst st) (tokens @ bigrams),
          byCode))"

definition loadEngine :: "soc_entry list \<Rightarrow> engine" where
  "loadEngine socs =
     (let st = foldl indexEntry (Map.empty, Map.empty) socs
      in \<lparr>socCodes = socs, socIndex = fst st, socByCode = snd st\<rparr>)"

subsection \<open>The query\<close>

text \<open>
  The program object of a request. Every field may be missing. \<open>filter(Boolean)\<close>
  drops the missing and the empty ones.
\<close>

record program_data =
  name :: "string option"
  longName :: "string option"
  cipCode :: "string option"
  type :: "string option"
  degreeDesignation :: "string option"
  college :: "string option"
  level :: "string option"

definition truthy :: "string option \<Rightarrow> bool" where
  "truthy x = (case x of None \<Rightarrow> False | Some s \<Rightarrow> s \<noteq> [])"

fun joinSpace :: "string list \<Rightarrow> string" where
  "joinSpace [] = []"
| "joinSpace [x] = x"
| "joinSpace (x # y # rest) = x @ '' '' @ joinSpace (y # rest)"

definition queryTextOf :: "program_data \<Rightarrow> string" where
  "queryTextOf p =
     joinSpace (map orEmpty (filter truthy
       [longName p, name p, type p, degreeDesignation p, college p, level p]))"

subsection \<open>Numbers\<close>

text \<open>
  A JavaScript number is an IEEE double. A finite double is modelled by the real number
  it denotes, so two scores compare as the reals they denote, and the sign of
  \<open>b[1] - a[1]\<close> is the order of the two numbers. The result of an operation on
  doubles is rounded, and \<open>Math.log\<close> is what the platform computes, so the four
  operations the code uses on scores are parameters of the model: \<open>fadd a b\<close> is
  \<open>a + b\<close>, \<open>fmul a b\<close> is \<open>a * b\<close>, \<open>fdiv a b\<close> is \<open>a / b\<close> and \<open>flog a\<close> is
  \<open>Math.log(a)\<close>, as the program computes them. No score of this program is \<open>NaN\<close>
  or infinite. \<open>exact\<close> is the arithmetic that does not round.
\<close>

record arith =
  fadd :: "real \<Rightarrow> real \<Rightarrow> real"
  fmul :: "real \<Rightarrow> real \<Rightarrow> real"
  fdiv :: "real \<Rightarrow> real \<Rightarrow> real"
  flog :: "real \<Rightarrow> real"

definition exact :: arith where
  "exact = \<lparr>fadd = (\<lambda>a b. a + b), fmul = (\<lambda>a b. a * b), fdiv = (\<lambda>a b. a / b), flog = ln\<rparr>"

subsection \<open>The score accumulator\<close>

text \<open>
  \<open>scores\<close> is a \<open>Map\<close> whose iteration order matters (\<open>[...scores.entries()]\<close>): an
  association list in insertion order. Setting a key that is present keeps its place.
\<close>

type_synonym scores = "(string \<times> real) list"

fun scoresSet :: "scores \<Rightarrow> string \<Rightarrow> real \<Rightarrow> scores" where
  "scoresSet [] k v = [(k, v)]"
| "scoresSet ((k', v') # rest) k v =
     (if k' = k then (k, v) # rest else (k', v') # scoresSet rest k v)"

text \<open>\<open>scores.get(code) || 0\<close>\<close>

definition scoreOf :: "scores \<Rightarrow> string \<Rightarrow> real" where
  "scoreOf sc c = (case map_of sc c of None \<Rightarrow> 0 | Some v \<Rightarrow> v)"

definition addScore :: "arith \<Rightarrow> scores \<Rightarrow> string \<Rightarrow> real \<Rightarrow> scores" where
  "addScore ar sc c weight = scoresSet sc c (fadd ar (scoreOf sc c) weight)"

text \<open>\<open>Math.log(socCodes.length / matches.size)\<close>\<close>

definition idfWeight :: "arith \<Rightarrow> nat \<Rightarrow> nat \<Rightarrow> real" where
  "idfWeight ar n df = flog ar (fdiv ar (real n) (real df))"

fun unigramPass :: "arith \<Rightarrow> engine \<Rightarrow> string list \<Rightarrow> scores \<Rightarrow> scores" where
  "unigramPass ar eng [] sc = sc"
| "unigramPass ar eng (token # rest) sc =
     (case socIndex eng token of
        None \<Rightarrow> unigramPass ar eng rest sc
      | Some matches \<Rightarrow>
          (let weight = idfWeight ar (length (socCodes eng)) (length matches)
           in unigramPass ar eng rest (foldl (\<lambda>s c. addScore ar s c weight) sc matches)))"

fun bigramPass :: "arith \<Rightarrow> engine \<Rightarrow> string list \<Rightarrow> scores \<Rightarrow> scores" where
  "bigramPass ar eng [] sc = sc"
| "bigramPass ar eng (bigram # rest) sc =
     (case socIndex eng bigram of
        None \<Rightarrow> bigramPass ar eng rest sc
      | Some matches \<Rightarrow>
          (let weight = fmul ar (idfWeight ar (length (socCodes eng)) (length matches)) 2
           in bigramPass ar eng rest (foldl (\<lambda>s c. addScore ar s c weight) sc matches)))"

text \<open>\<open>queryLower.includes(t)\<close>: \<open>t\<close> occurs in \<open>s\<close> as a contiguous substring.\<close>

fun includesStr :: "string \<Rightarrow> string \<Rightarrow> bool" where
  "includesStr [] t = (t = [])"
| "includesStr (c # cs) t = (prefix t (c # cs) \<or> includesStr cs t)"

definition titleMatchCountOf :: "string \<Rightarrow> string list \<Rightarrow> nat" where
  "titleMatchCountOf queryLower titleTokens =
     length (filter (\<lambda>t. includesStr queryLower t) titleTokens)"

fun titlePass :: "arith \<Rightarrow> string \<Rightarrow> soc_entry list \<Rightarrow> scores \<Rightarrow> scores" where
  "titlePass ar queryLower [] sc = sc"
| "titlePass ar queryLower (soc # rest) sc =
     (let titleTokens = tokenize (title soc);
          titleMatchCount = titleMatchCountOf queryLower titleTokens
      in if titleMatchCount > 0
         then (let matchRatio = fdiv ar (real titleMatchCount) (real (length titleTokens));
                   bonus = fmul ar matchRatio 10
               in titlePass ar queryLower rest (addScore ar sc (code soc) bonus))
         else titlePass ar queryLower rest sc)"

subsection \<open>Ranking\<close>

text \<open>
  \<open>.sort((a, b) => b[1] - a[1])\<close>: \<open>Array.prototype.sort\<close> is stable, and the comparator
  orders by descending score, so the result is the stable sort on the negated score.
\<close>

definition sortByScoreDesc :: "scores \<Rightarrow> scores" where
  "sortByScoreDesc sc = sort_key (\<lambda>p. - snd p) sc"

text \<open>
  \<open>.slice(0, topN)\<close>: a negative end counts from the end of the array, and an end
  beyond the length stops at the length.
\<close>

definition sliceTo :: "'a list \<Rightarrow> int \<Rightarrow> 'a list" where
  "sliceTo xs e =
     (if e < 0 then take (nat (int (length xs) + e)) xs else take (nat e) xs)"

text \<open>
  \<open>Math.round\<close> gives the nearest integer, halves upwards; it does not round its
  result, which is an integer.
\<close>

definition jsRound :: "real \<Rightarrow> int" where
  "jsRound x = \<lfloor>x + 1 / 2\<rfloor>"

text \<open>
  A result spreads the entry found under the code and adds \<open>relevanceScore\<close>, which is
  \<open>Math.round(score * 100) / 100\<close>; when \<open>socByCode\<close> has no such code the spread adds
  nothing.
\<close>

record scored_match =
  entry :: "soc_entry option"
  relevanceScore :: real

definition toMatch :: "arith \<Rightarrow> engine \<Rightarrow> string \<times> real \<Rightarrow> scored_match" where
  "toMatch ar eng p =
     \<lparr>entry = socByCode eng (fst p),
      relevanceScore = fdiv ar (real_of_int (jsRound (fmul ar (snd p) 100))) 100\<rparr>"

text \<open>The score map as it stands after the two index passes, and after all three.\<close>

definition indexScores :: "arith \<Rightarrow> engine \<Rightarrow> program_data \<Rightarrow> scores" where
  "indexScores ar eng programData =
     (let queryText = queryTextOf programData;
          queryTokens = tokenize queryText;
          queryBigrams = bigramsOf queryTokens
      in bigramPass ar eng queryBigrams (unigramPass ar eng queryTokens []))"

definition allScores :: "arith \<Rightarrow> engine \<Rightarrow> program_data \<Rightarrow> scores" where
  "allScores ar eng programData =
     (let queryLower = toLowerCase (queryTextOf programData)
      in titlePass ar queryLower (socCodes eng) (indexScores ar eng programData))"

definition ranked :: "arith \<Rightarrow> engine \<Rightarrow> program_data \<Rightarrow> int \<Rightarrow> scores" where
  "ranked ar eng programData topN =
     sliceTo (sortByScoreDesc (allScores ar eng programData)) topN"

definition matchSocCodes :: "arith \<Rightarrow> engine \<Rightarrow> program_data \<Rightarrow> int \<Rightarrow> scored_match list" where
  "matchSocCodes ar eng programData topN =
     map (toMatch ar eng) (ranked ar eng programData topN)"

section \<open>The optional AI ranking and the match endpoint\<close>

text \<open>
  An element of the array the AI reply holds, and the enriched element that
  \<open>matchSocCodesWithAI\<close> returns for it. Any field of an element may be missing.
\<close>

record ai_item =
  m_code :: "string option"
  m_title :: "string option"
  m_reason :: "string option"

record ai_match =
  ai_code :: "string option"
  ai_title :: "string option"
  ai_majorGroup :: string
  ai_minorGroup :: string
  ai_broadGroup :: string
  ai_reason :: "string option"
  ai_source :: string
  verified :: bool

text \<open>
  The body of \<open>aiMatches.map\<close>. \<open>local?.title || m.title\<close> takes the local title unless
  it is missing or empty; the group labels are \<open>local?.majorGroup || ''\<close>.
\<close>

definition enrich :: "engine \<Rightarrow> ai_item \<Rightarrow> ai_match" where
  "enrich eng m =
     (let local = (case m_code m of None \<Rightarrow> None | Some c \<Rightarrow> socByCode eng c)
      in \<lparr>ai_code = m_code m,
          ai_title = (case local of
                        None \<Rightarrow> m_title m
                      | Some l \<Rightarrow> if title l \<noteq> [] then Some (title l) else m_title m),
          ai_majorGroup = (case local of None \<Rightarrow> [] | Some l \<Rightarrow> orEmpty (majorGroup l)),
          ai_minorGroup = (case local of None \<Rightarrow> [] | Some l \<Rightarrow> orEmpty (minorGroup l)),
          ai_broadGroup = (case local of None \<Rightarrow> [] | Some l \<Rightarrow> orEmpty (broadGroup l)),
          ai_reason = m_reason m,
          ai_source = ''ai'',
          verified = (local \<noteq> None)\<rparr>)"

text \<open>
  What the external service does with one request: \<open>fetch\<close> rejects (network error,
  timeout of the transport), \<open>response.json()\<close> rejects, or there is a body, of which
  the code keeps \<open>data.choices?.[0]?.message?.content || ''\<close>.
\<close>

datatype ai_reply = FetchRejects | BodyRejects | Content string

text \<open>
  \<open>content.match(/\[[\s\S]*\]/)\<close>: the text from the first \<open>[\<close> to the last \<open>]\<close>
  after it, when there is one.
\<close>

definition matchJsonArray :: "string \<Rightarrow> string option" where
  "matchJsonArray content =
     (let s = dropWhile (\<lambda>c. c \<noteq> CHR ''['') content
      in if CHR '']'' \<in> set s
         then Some (rev (dropWhile (\<lambda>c. c \<noteq> CHR '']'') (rev s)))
         else None)"

text \<open>
  \<open>OPENAI_API_KEY\<close> is the configured key (empty when there is none). \<open>JSON_parse\<close>
  stands for \<open>JSON.parse\<close> on a text that starts with \<open>[\<close>: \<open>None\<close> when it throws,
  otherwise the elements of the array, where \<open>None\<close> is an element \<open>null\<close> (reading
  \<open>m.code\<close> of it throws). \<open>service\<close> is the external service, which sees the prompt
  built from the program and \<open>topN\<close>. Every exception inside the \<open>try\<close> block ends in
  the \<open>catch\<close> branch, which returns \<open>null\<close>.
\<close>

definition matchSocCodesWithAI ::
  "string \<Rightarrow> (string \<Rightarrow> ai_item option list option) \<Rightarrow> (program_data \<Rightarrow> int \<Rightarrow> ai_reply)
     \<Rightarrow> engine \<Rightarrow> program_data \<Rightarrow> int \<Rightarrow> ai_match list option" where
  "matchSocCodesWithAI OPENAI_API_KEY JSON_parse service eng programData topN =
     (if OPENAI_API_KEY = [] then None
      else case service programData topN of
             FetchRejects \<Rightarrow> None
           | BodyRejects \<Rightarrow> None
           | Content content \<Rightarrow>
               (case matchJsonArray content of
                  None \<Rightarrow> None
                | Some jsonMatch \<Rightarrow>
                    (case JSON_parse jsonMatch of
                       None \<Rightarrow> None
                     | Some aiMatches \<Rightarrow>
                         if None \<in> set aiMatches then None
                         else Some (map (\<lambda>m. enrich eng (the m)) aiMatches))))"

text \<open>
  \<open>POST /api/soc/match\<close>. The request body gives \<open>program\<close>, \<open>topN = 10\<close> and
  \<open>useAI = false\<close> by default. The response repeats three fields of the program,
  which are left out here. With the typed request of this model no step of the handler
  throws, so its \<open>catch\<close> branch (status 500) is never taken.
\<close>

record match_request =
  req_program :: "program_data option"
  req_topN :: "int option"
  req_useAI :: "bool option"

record match_response =
  localMatches :: "scored_match list"
  aiMatches :: "ai_match list option"
  aiAvailable :: bool

datatype http_response = Status400 | Status500 | Json match_response

definition socMatchHandler ::
  "arith \<Rightarrow> string \<Rightarrow> (string \<Rightarrow> ai_item option list option)
     \<Rightarrow> (program_data \<Rightarrow> int \<Rightarrow> ai_reply) \<Rightarrow> engine \<Rightarrow> match_request \<Rightarrow> http_response" where
  "socMatchHandler ar OPENAI_API_KEY JSON_parse service eng req =
     (case req_program req of
        None \<Rightarrow> Status400
      | Some program \<Rightarrow>
          (let topN = (case req_topN req of None \<Rightarrow> 10 | Some n \<Rightarrow> n);
               useAI = (case req_useAI req of None \<Rightarrow> False | Some b \<Rightarrow> b)
           in Json \<lparr>localMatches = matchSocCodes ar eng program topN,
                    aiMatches =
                      (if useAI \<and> OPENAI_API_KEY \<noteq> []
                       then matchSocCodesWithAI OPENAI_API_KEY JSON_parse service eng program topN
                       else None),
                    aiAvailable = (OPENAI_API_KEY \<noteq> [])\<rparr>))"

section \<open>A small taxonomy for the examples\<close>

definition exArt :: soc_entry where
  "exArt = \<lparr>code = ''27-1011'', title = ''Art Directors'', majorGroup = Some ''Arts'',
             minorGroup = None, broadGroup = None\<rparr>"

definition exNurses :: soc_entry where
  "exNurses = \<lparr>code = ''29-1141'', title = ''Nurses'', majorGroup = Some ''Healthcare'',
                minorGroup = None, broadGroup = None\<rparr>"

definition exSurgeons :: soc_entry where
  "exSurgeons = \<lparr>code = ''29-1240'', title = ''Surgeons'', majorGroup = Some ''Healthcare'',
                  minorGroup = None, broadGroup = None\<rparr>"

definition exUntitled :: soc_entry where
  "exUntitled = \<lparr>code = ''11-1011'', title = [], majorGroup = Some ''Management'',
                  minorGroup = None, broadGroup = None\<rparr>"

text \<open>Two entries with titles of 35 and of 34 tokens, of which only \<open>aaa\<close> is shared.\<close>

definition exLong35 :: soc_entry where
  "exLong35 = \<lparr>code = ''10-0035'',
      title = ''aaa t01 t02 t03 t04 t05 t06 t07 t08 t09 t10 t11 t12 t13 t14 t15 t16 t17 t18 t19 t20 t21 t22 t23 t24 t25 t26 t27 t28 t29 t30 t31 t32 t33 t34'',
      majorGroup = None, minorGroup = None, broadGroup = None\<rparr>"

definition exLong34 :: soc_entry where
  "exLong34 = \<lparr>code = ''10-0034'',
      title = ''aaa t01 t02 t03 t04 t05 t06 t07 t08 t09 t10 t11 t12 t13 t14 t15 t16 t17 t18 t19 t20 t21 t22 t23 t24 t25 t26 t27 t28 t29 t30 t31 t32 t33'',
      majorGroup = None, minorGroup = None, broadGroup = None\<rparr>"

definition exLong :: "soc_entry list" where
  "exLong = [exLong35, exLong34]"

definition exHealth :: "soc_entry list" where
  "exHealth = [exNurses, exSurgeons]"

definition exMixed :: "soc_entry list" where
  "exMixed = [exArt, exNurses]"

definition exQuery :: "string \<Rightarrow> program_data" where
  "exQuery n = \<lparr>name = Some n, longName = None, cipCode = None, type = None,
                 degreeDesignation = None, college = None, level = None\<rparr>"

text \<open>
  An AI reply with three elements, the text the regular expression cuts out of it, what
  \<open>JSON.parse\<close> makes of that text, and a service that is down.
\<close>

definition exAiTaxonomy :: "soc_entry list" where
  "exAiTaxonomy = [exNurses, exUntitled]"

definition exContent :: string where
  \<open>exContent = ''Sure: [{"code":"29-1141","title":"RN","reason":"care"},{"code":"99-9999","title":"Healers"},{"code":"11-1011","title":"Chief Executives"}] Done.''\<close>

definition exJson :: string where
  \<open>exJson = ''[{"code":"29-1141","title":"RN","reason":"care"},{"code":"99-9999","title":"Healers"},{"code":"11-1011","title":"Chief Executives"}]''\<close>

definition exItems :: "ai_item list" where
  "exItems =
     [\<lparr>m_code = Some ''29-1141'', m_title = Some ''RN'', m_reason = Some ''care''\<rparr>,
      \<lparr>m_code = Some ''99-9999'', m_title = Some ''Healers'', m_reason = None\<rparr>,
      \<lparr>m_code = Some ''11-1011'', m_title = Some ''Chief Executives'', m_reason = None\<rparr>]"

definition exParse :: "string \<Rightarrow> ai_item option list option" where
  "exParse s = (if s = exJson then Some (map Some exItems) else None)"

definition exService :: "program_data \<Rightarrow> int \<Rightarrow> ai_reply" where
  "exService p n = Content exContent"

definition exDownService :: "program_data \<Rightarrow> int \<Rightarrow> ai_reply" where
  "exDownService p n = FetchRejects"


section \<open>The tokenizer: proofs\<close>



lemma splitWs_ne: "splitWs s \<noteq> []"
  by (induction s) (auto split: list.splits)

lemma splitWs_nws: "\<not> isWhitespace c \<Longrightarrow> splitWs (c # cs) = (c # hd (splitWs cs)) # tl (splitWs cs)"
  by (cases "splitWs cs") (simp_all add: splitWs_ne)

lemma splitWs_ws: "isWhitespace c \<Longrightarrow> splitWs (c # cs) = (if startsWithWs cs then splitWs cs else [] # splitWs cs)"
  by simp

lemma hd_splitWs: "hd (splitWs s) = takeWhile (\<lambda>x. \<not> isWhitespace x) s"
proof (induction s)
  case Nil
  show ?case by simp
next
  case (Cons c cs)
  show ?case
  proof (cases "isWhitespace c")
    case True
    have "startsWithWs cs \<Longrightarrow> takeWhile (\<lambda>x. \<not> isWhitespace x) cs = []"
      by (cases cs) (simp_all add: startsWithWs_def)
    then show ?thesis using True Cons.IH by simp
  next
    case False
    then show ?thesis by (simp add: splitWs_nws Cons.IH del: splitWs.simps)
  qed
qed

lemma splitWs_dropWhile: "filter (\<lambda>w. w \<noteq> []) (splitWs (dropWhile isWhitespace s)) = filter (\<lambda>w. w \<noteq> []) (splitWs s)"
  by (induction s) simp_all

lemma tl_splitWs: "filter (\<lambda>w. w \<noteq> []) (tl (splitWs s)) = filter (\<lambda>w. w \<noteq> []) (splitWs (dropWhile (\<lambda>x. \<not> isWhitespace x) s))"
proof (induction s)
  case Nil
  show ?case by simp
next
  case (Cons c cs)
  show ?case
  proof (cases "isWhitespace c")
    case True
    have "hd (splitWs (c # cs)) = []"
      using True by (simp only: hd_splitWs) simp
    then have "filter (\<lambda>w. w \<noteq> []) (tl (splitWs (c # cs))) = filter (\<lambda>w. w \<noteq> []) (splitWs (c # cs))"
      using splitWs_ne [of "c # cs"] by (cases "splitWs (c # cs)") simp_all
    then show ?thesis using True by (simp del: splitWs.simps)
  next
    case False
    then show ?thesis by (simp add: splitWs_nws Cons.IH del: splitWs.simps)
  qed
qed

lemma splitWs_specWords: "filter (\<lambda>w. w \<noteq> []) (splitWs s) = specWords s"
proof (induction s rule: specWords.induct)
  case (1 s)
  have eq: "filter (\<lambda>w. w \<noteq> []) (splitWs s) = filter (\<lambda>w. w \<noteq> []) (splitWs (dropWhile isWhitespace s))"
    by (rule splitWs_dropWhile [symmetric])
  show ?case
  proof (cases "dropWhile isWhitespace s")
    case Nil
    have "specWords s = []"
      by (subst specWords.simps) (simp only: Nil list.case)
    moreover have "filter (\<lambda>w. w \<noteq> []) (splitWs s) = []"
      by (subst eq) (simp only: Nil splitWs.simps filter.simps, simp)
    ultimately show ?thesis by simp
  next
    case (Cons c cs)
    have nws: "\<not> isWhitespace c"
      using hd_dropWhile [of isWhitespace s] Cons by simp
    let ?F = "filter (\<lambda>w. w \<noteq> [])"
    have sp: "specWords s = takeWhile (\<lambda>x. \<not> isWhitespace x) (c # cs) # specWords (dropWhile (\<lambda>x. \<not> isWhitespace x) cs)"
      by (subst specWords.simps) (simp only: Cons list.case)
    have "splitWs (c # cs) = hd (splitWs (c # cs)) # tl (splitWs (c # cs))"
      using splitWs_ne [of "c # cs"] by simp
    then have "?F (splitWs (c # cs)) = ?F (takeWhile (\<lambda>x. \<not> isWhitespace x) (c # cs) # tl (splitWs (c # cs)))"
      by (simp only: hd_splitWs)
    also have "\<dots> = takeWhile (\<lambda>x. \<not> isWhitespace x) (c # cs) # ?F (tl (splitWs (c # cs)))"
      using nws by simp
    also have "?F (tl (splitWs (c # cs))) = ?F (splitWs (dropWhile (\<lambda>x. \<not> isWhitespace x) cs))"
      using nws by (simp only: tl_splitWs) simp
    also have "\<dots> = specWords (dropWhile (\<lambda>x. \<not> isWhitespace x) cs)"
      using "1.IH" [OF Cons] .
    finally show ?thesis using eq Cons sp by simp
  qed
qed

lemma keepWord_ne: "keepWord w \<Longrightarrow> w \<noteq> []"
  by (auto simp: keepWord_def)

lemma tokenize_specWords: "tokenize text = filter keepWord (specWords (replaceNonAlnum (toLowerCase text)))"
proof -
  have "filter keepWord (filter (\<lambda>w. w \<noteq> []) xs) = filter keepWord xs" for xs
    by (induction xs) (auto dest: keepWord_ne)
  then show ?thesis
    unfolding tokenize_def splitWs_specWords [symmetric] by simp
qed

lemma splitWs_chars: "w \<in> set (splitWs s) \<Longrightarrow> c \<in> set w \<Longrightarrow> c \<in> set s \<and> \<not> isWhitespace c"
proof (induction s arbitrary: w)
  case Nil
  then show ?case by simp
next
  case (Cons d ds)
  show ?case
  proof (cases "isWhitespace d")
    case True
    then have "w \<in> set (splitWs ds) \<or> w = []"
      using Cons.prems(1) by (auto split: if_splits)
    then show ?thesis using Cons.IH [of w] Cons.prems(2) by auto
  next
    case False
    have sp: "splitWs ds = hd (splitWs ds) # tl (splitWs ds)"
      using splitWs_ne [of ds] by simp
    from False Cons.prems(1) have "w = d # hd (splitWs ds) \<or> w \<in> set (tl (splitWs ds))"
      by (simp add: splitWs_nws del: splitWs.simps)
    then show ?thesis
    proof
      assume w: "w = d # hd (splitWs ds)"
      show ?thesis
      proof (cases "c = d")
        case True
        then show ?thesis using False by simp
      next
        case ne: False
        then have "c \<in> set (hd (splitWs ds))" using w Cons.prems(2) by simp
        moreover have "hd (splitWs ds) \<in> set (splitWs ds)" using splitWs_ne [of ds] by simp
        ultimately show ?thesis using Cons.IH by simp
      qed
    next
      assume "w \<in> set (tl (splitWs ds))"
      then have "w \<in> set (splitWs ds)" using splitWs_ne [of ds] by (simp add: list.set_sel(2))
      then show ?thesis using Cons.IH [of w] Cons.prems(2) by simp
    qed
  qed
qed

lemma tokenize_chars: "w \<in> set (tokenize text) \<Longrightarrow> c \<in> set w \<Longrightarrow> isLowerAlnum c"
proof -
  assume w: "w \<in> set (tokenize text)" and c: "c \<in> set w"
  from w have "w \<in> set (splitWs (replaceNonAlnum (toLowerCase text)))"
    by (simp add: tokenize_def)
  from splitWs_chars [OF this c]
  have "c \<in> set (replaceNonAlnum (toLowerCase text))" and nws: "\<not> isWhitespace c" by simp_all
  then have "c \<in> (\<lambda>c. if isLowerAlnum c \<or> isWhitespace c then c else CHR '' '') ` set (toLowerCase text)"
    by (simp only: replaceNonAlnum_def set_map)
  then obtain d where "c = (if isLowerAlnum d \<or> isWhitespace d then d else CHR '' '')"
    by (rule imageE)
  moreover have "isWhitespace CHR '' ''" by (simp add: isWhitespace_def)
  ultimately show ?thesis using nws by (auto split: if_splits)
qed

lemma tokenize_keep: "w \<in> set (tokenize text) \<Longrightarrow> 3 \<le> length w \<and> w \<notin> set STOP_WORDS"
  by (auto simp: tokenize_def keepWord_def)


text \<open>
  C7. The tokenizer is a function of its input alone. Its output is the sequence, in
  order, of the words of the lower-cased text in which every character outside
  \<open>[a-z0-9]\<close> and whitespace has become a space (the words being the maximal runs of
  characters that are not whitespace), without the words shorter than 3 and without
  the stop words. So no token is shorter than 3, none is a stop word, and every
  character of a token is in \<open>[a-z0-9]\<close>.
\<close>

theorem tokenize_words:
  "tokenize text =
     filter (\<lambda>w. \<not> length w < 3 \<and> w \<notin> set STOP_WORDS)
       (specWords (replaceNonAlnum (toLowerCase text)))
   \<and> (\<forall>w \<in> set (tokenize text).
         \<not> length w < 3 \<and> w \<notin> set STOP_WORDS \<and> (\<forall>c \<in> set w. isLowerAlnum c))"
proof -
  have "keepWord = (\<lambda>w. \<not> length w < 3 \<and> w \<notin> set STOP_WORDS)"
    by (auto simp: keepWord_def fun_eq_iff)
  then have "tokenize text =
     filter (\<lambda>w. \<not> length w < 3 \<and> w \<notin> set STOP_WORDS)
       (specWords (replaceNonAlnum (toLowerCase text)))"
    using tokenize_specWords [of "text"] by simp
  moreover have "\<forall>w \<in> set (tokenize text).
         \<not> length w < 3 \<and> w \<notin> set STOP_WORDS \<and> (\<forall>c \<in> set w. isLowerAlnum c)"
    using tokenize_keep [of _ "text"] tokenize_chars [of _ "text"] by fastforce
  ultimately show ?thesis by (rule conjI)
qed

lemma tokenize_example: "tokenize ''The Art of War'' = [''art'', ''war'']"
  by code_simp

theorem tokenize_words_witness:
  "''art'' \<in> set (tokenize ''The Art of War'')
   \<and> CHR ''a'' \<in> set ''art''
   \<and> \<not> length ''art'' < 3 \<and> ''art'' \<notin> set STOP_WORDS \<and> isLowerAlnum CHR ''a''"
proof -
  have m: "''art'' \<in> set (tokenize ''The Art of War'')"
    by (simp add: tokenize_example)
  have c: "CHR ''a'' \<in> set ''art''" by simp
  from tokenize_words [of "''The Art of War''"] m
  have "\<not> length ''art'' < 3 \<and> ''art'' \<notin> set STOP_WORDS \<and> (\<forall>c \<in> set ''art''. isLowerAlnum c)"
    by blast
  with m c show ?thesis by blast
qed


section \<open>The score accumulator: proofs\<close>

lemma exact_arith:
  "fadd exact a b = a + b" "fmul exact a b = a * b" "fdiv exact a b = a / b" "flog exact a = ln a"
  by (simp_all add: exact_def)

lemma map_of_scoresSet: "map_of (scoresSet sc k v) = (map_of sc)(k \<mapsto> v)"
  by (induction sc) (auto simp: fun_eq_iff)

lemma keys_scoresSet:
  "map fst (scoresSet sc k v) = (if k \<in> set (map fst sc) then map fst sc else map fst sc @ [k])"
proof (induction sc)
  case Nil
  show ?case by simp
next
  case (Cons p sc)
  show ?case
  proof (cases "fst p = k")
    case True
    then show ?thesis by (cases p) simp
  next
    case False
    then show ?thesis using Cons.IH by (cases p) simp
  qed
qed

lemma scoreOf_addScore:
  "scoreOf (addScore ar sc c w) c' = (if c' = c then fadd ar (scoreOf sc c) w else scoreOf sc c')"
  by (simp add: scoreOf_def addScore_def map_of_scoresSet)

lemma keys_addScore:
  "map fst (addScore ar sc c w) = (if c \<in> set (map fst sc) then map fst sc else map fst sc @ [c])"
  by (simp add: addScore_def keys_scoresSet)

lemma keyset_addScore: "fst ` set (addScore ar sc c w) = insert c (fst ` set sc)"
proof -
  have "set (map fst (addScore ar sc c w)) = insert c (set (map fst sc))"
    by (simp only: keys_addScore) auto
  then show ?thesis by simp
qed

lemma distinct_addScore: "distinct (map fst sc) \<Longrightarrow> distinct (map fst (addScore ar sc c w))"
  by (simp add: keys_addScore)

lemma prefix_addScore: "prefix (map fst sc) (map fst (addScore ar sc c w))"
  by (simp add: keys_addScore)


lemma keys_addAll:
  "fst ` set (foldl (\<lambda>s c. addScore ar s c w) sc ms) = fst ` set sc \<union> set ms"
  by (induction ms arbitrary: sc) (auto simp: keyset_addScore)

lemma prefix_addAll: "prefix (map fst sc) (map fst (foldl (\<lambda>s c. addScore ar s c w) sc ms))"
proof (induction ms arbitrary: sc)
  case Nil
  show ?case by simp
next
  case (Cons m ms)
  have "prefix (map fst sc) (map fst (addScore ar sc m w))" by (rule prefix_addScore)
  also have "prefix \<dots> (map fst (foldl (\<lambda>s c. addScore ar s c w) (addScore ar sc m w) ms))"
    by (rule Cons.IH)
  finally show ?case by simp
qed

lemma distinct_addAll:
  "distinct (map fst sc) \<Longrightarrow> distinct (map fst (foldl (\<lambda>s c. addScore ar s c w) sc ms))"
  by (induction ms arbitrary: sc) (simp_all add: distinct_addScore)



lemma keys_unigramPass:
  "fst ` set (unigramPass ar eng toks sc) =
     fst ` set sc \<union> {c. \<exists>t ms. t \<in> set toks \<and> socIndex eng t = Some ms \<and> c \<in> set ms}"
proof (induction toks arbitrary: sc)
  case Nil
  show ?case by simp
next
  case (Cons t toks)
  let ?K = "\<lambda>ts. {c. \<exists>t ms. t \<in> set ts \<and> socIndex eng t = Some ms \<and> c \<in> set ms}"
  show ?case
  proof (cases "socIndex eng t")
    case None
    then have "?K (t # toks) = ?K toks" by auto
    then show ?thesis using None Cons.IH [of sc] by simp
  next
    case (Some ms)
    let ?sc = "foldl (\<lambda>s c. addScore ar s c (idfWeight ar (length (socCodes eng)) (length ms))) sc ms"
    have k: "?K (t # toks) = set ms \<union> ?K toks" using Some by auto
    have "fst ` set (unigramPass ar eng (t # toks) sc) = fst ` set (unigramPass ar eng toks ?sc)"
      using Some by simp
    also have "\<dots> = fst ` set ?sc \<union> ?K toks" by (rule Cons.IH)
    also have "fst ` set ?sc = fst ` set sc \<union> set ms" by (rule keys_addAll)
    finally show ?thesis unfolding k by (simp add: Un_assoc)
  qed
qed

lemma keys_bigramPass:
  "fst ` set (bigramPass ar eng toks sc) =
     fst ` set sc \<union> {c. \<exists>t ms. t \<in> set toks \<and> socIndex eng t = Some ms \<and> c \<in> set ms}"
proof (induction toks arbitrary: sc)
  case Nil
  show ?case by simp
next
  case (Cons t toks)
  let ?K = "\<lambda>ts. {c. \<exists>t ms. t \<in> set ts \<and> socIndex eng t = Some ms \<and> c \<in> set ms}"
  show ?case
  proof (cases "socIndex eng t")
    case None
    then have "?K (t # toks) = ?K toks" by auto
    then show ?thesis using None Cons.IH [of sc] by simp
  next
    case (Some ms)
    let ?sc = "foldl (\<lambda>s c. addScore ar s c (fmul ar (idfWeight ar (length (socCodes eng)) (length ms)) 2)) sc ms"
    have k: "?K (t # toks) = set ms \<union> ?K toks" using Some by auto
    have "fst ` set (bigramPass ar eng (t # toks) sc) = fst ` set (bigramPass ar eng toks ?sc)"
      using Some by simp
    also have "\<dots> = fst ` set ?sc \<union> ?K toks" by (rule Cons.IH)
    also have "fst ` set ?sc = fst ` set sc \<union> set ms" by (rule keys_addAll)
    finally show ?thesis unfolding k by (simp add: Un_assoc)
  qed
qed

lemma prefix_unigramPass: "prefix (map fst sc) (map fst (unigramPass ar eng toks sc))"
proof (induction toks arbitrary: sc)
  case Nil
  show ?case by simp
next
  case (Cons t toks)
  show ?case
  proof (cases "socIndex eng t")
    case None
    then show ?thesis using Cons.IH [of sc] by simp
  next
    case (Some ms)
    let ?sc = "foldl (\<lambda>s c. addScore ar s c (idfWeight ar (length (socCodes eng)) (length ms))) sc ms"
    have "prefix (map fst sc) (map fst ?sc)" by (rule prefix_addAll)
    also have "prefix \<dots> (map fst (unigramPass ar eng toks ?sc))" by (rule Cons.IH)
    finally show ?thesis using Some by simp
  qed
qed

lemma prefix_bigramPass: "prefix (map fst sc) (map fst (bigramPass ar eng toks sc))"
proof (induction toks arbitrary: sc)
  case Nil
  show ?case by simp
next
  case (Cons t toks)
  show ?case
  proof (cases "socIndex eng t")
    case None
    then show ?thesis using Cons.IH [of sc] by simp
  next
    case (Some ms)
    let ?sc = "foldl (\<lambda>s c. addScore ar s c (fmul ar (idfWeight ar (length (socCodes eng)) (length ms)) 2)) sc ms"
    have "prefix (map fst sc) (map fst ?sc)" by (rule prefix_addAll)
    also have "prefix \<dots> (map fst (bigramPass ar eng toks ?sc))" by (rule Cons.IH)
    finally show ?thesis using Some by simp
  qed
qed

lemma distinct_unigramPass:
  "distinct (map fst sc) \<Longrightarrow> distinct (map fst (unigramPass ar eng toks sc))"
  by (induction toks arbitrary: sc) (simp_all add: distinct_addAll split: option.splits)

lemma distinct_bigramPass:
  "distinct (map fst sc) \<Longrightarrow> distinct (map fst (bigramPass ar eng toks sc))"
  by (induction toks arbitrary: sc) (simp_all add: distinct_addAll split: option.splits)

lemma scoreOf_titlePass:
  "scoreOf (titlePass exact ql socs sc) c =
     scoreOf sc c +
     (\<Sum>e\<leftarrow>filter (\<lambda>e. code e = c) socs.
        real (titleMatchCountOf ql (tokenize (title e))) / real (length (tokenize (title e))) * 10)"
  by (induction socs arbitrary: sc) (simp_all add: scoreOf_addScore exact_arith Let_def)

lemma keys_titlePass:
  "fst ` set (titlePass ar ql socs sc) =
     fst ` set sc \<union> {code e | e. e \<in> set socs \<and> 0 < titleMatchCountOf ql (tokenize (title e))}"
proof (induction socs arbitrary: sc)
  case Nil
  show ?case by simp
next
  case (Cons e socs)
  let ?K = "\<lambda>es. {code e | e. e \<in> set es \<and> 0 < titleMatchCountOf ql (tokenize (title e))}"
  show ?case
  proof (cases "0 < titleMatchCountOf ql (tokenize (title e))")
    case True
    let ?sc = "addScore ar sc (code e)
        (fmul ar (fdiv ar (real (titleMatchCountOf ql (tokenize (title e))))
           (real (length (tokenize (title e))))) 10)"
    have k: "?K (e # socs) = insert (code e) (?K socs)" using True by auto
    have "fst ` set (titlePass ar ql (e # socs) sc) = fst ` set (titlePass ar ql socs ?sc)"
      using True by (simp add: Let_def)
    also have "\<dots> = fst ` set ?sc \<union> ?K socs" by (rule Cons.IH)
    also have "fst ` set ?sc = insert (code e) (fst ` set sc)" by (rule keyset_addScore)
    finally show ?thesis unfolding k by simp
  next
    case False
    then have "?K (e # socs) = ?K socs" by auto
    then show ?thesis using False Cons.IH [of sc] by (simp add: Let_def)
  qed
qed

lemma prefix_titlePass: "prefix (map fst sc) (map fst (titlePass ar ql socs sc))"
proof (induction socs arbitrary: sc)
  case Nil
  show ?case by simp
next
  case (Cons e socs)
  show ?case
  proof (cases "0 < titleMatchCountOf ql (tokenize (title e))")
    case True
    let ?sc = "addScore ar sc (code e)
        (fmul ar (fdiv ar (real (titleMatchCountOf ql (tokenize (title e))))
           (real (length (tokenize (title e))))) 10)"
    have "prefix (map fst sc) (map fst ?sc)" by (rule prefix_addScore)
    also have "prefix \<dots> (map fst (titlePass ar ql socs ?sc))" by (rule Cons.IH)
    finally show ?thesis using True by (simp add: Let_def)
  next
    case False
    then show ?thesis using Cons.IH [of sc] by (simp add: Let_def)
  qed
qed

lemma distinct_titlePass:
  "distinct (map fst sc) \<Longrightarrow> distinct (map fst (titlePass ar ql socs sc))"
  by (induction socs arbitrary: sc) (simp_all add: distinct_addScore Let_def)

lemma distinct_indexScores: "distinct (map fst (indexScores ar eng p))"
  by (simp add: indexScores_def Let_def distinct_bigramPass distinct_unigramPass)

lemma distinct_allScores: "distinct (map fst (allScores ar eng p))"
  by (simp add: allScores_def Let_def distinct_titlePass distinct_indexScores)

section \<open>The index is derived from the taxonomy: proofs\<close>

lemma indexAdd_codes:
  assumes "\<forall>t ms. idx t = Some ms \<longrightarrow> set ms \<subseteq> C \<and> distinct ms"
    and "c \<in> C"
  shows "\<forall>t ms. indexAdd idx c tok t = Some ms \<longrightarrow> set ms \<subseteq> C \<and> distinct ms"
proof (intro allI impI)
  fix t ms
  assume a: "indexAdd idx c tok t = Some ms"
  show "set ms \<subseteq> C \<and> distinct ms"
  proof (cases "idx tok")
    case None
    then show ?thesis using a assms by (auto simp: indexAdd_def split: if_splits)
  next
    case (Some cs)
    then have cs: "set cs \<subseteq> C" "distinct cs" using assms(1) by blast+
    show ?thesis
    proof (cases "t = tok \<and> c \<notin> set cs")
      case True
      then have "ms = cs @ [c]" using a Some by (simp add: indexAdd_def)
      then show ?thesis using cs True assms(2) by auto
    next
      case False
      then have "idx t = Some ms" using a Some by (auto simp: indexAdd_def split: if_splits)
      then show ?thesis using assms(1) by blast
    qed
  qed
qed

lemma foldl_indexAdd_codes:
  assumes "\<forall>t ms. idx t = Some ms \<longrightarrow> set ms \<subseteq> C \<and> distinct ms"
    and "c \<in> C"
  shows "\<forall>t ms. foldl (\<lambda>idx token. indexAdd idx c token) idx toks t = Some ms
           \<longrightarrow> set ms \<subseteq> C \<and> distinct ms"
  using assms(1)
proof (induction toks arbitrary: idx)
  case Nil
  then show ?case by simp
next
  case (Cons tok toks)
  have "\<forall>t ms. indexAdd idx c tok t = Some ms \<longrightarrow> set ms \<subseteq> C \<and> distinct ms"
    by (rule indexAdd_codes [OF Cons.prems assms(2)])
  from Cons.IH [OF this] show ?case by simp
qed

lemma indexEntry_inv:
  assumes "\<forall>t ms. fst st t = Some ms \<longrightarrow> set ms \<subseteq> code ` S \<and> distinct ms"
    and "\<forall>c e. snd st c = Some e \<longrightarrow> e \<in> S \<and> code e = c"
    and "\<forall>e \<in> S. snd st (code e) \<noteq> None"
  shows "(\<forall>t ms. fst (indexEntry st soc) t = Some ms \<longrightarrow> set ms \<subseteq> code ` insert soc S \<and> distinct ms)
       \<and> (\<forall>c e. snd (indexEntry st soc) c = Some e \<longrightarrow> e \<in> insert soc S \<and> code e = c)
       \<and> (\<forall>e \<in> insert soc S. snd (indexEntry st soc) (code e) \<noteq> None)"
proof (intro conjI)
  have "\<forall>t ms. fst st t = Some ms \<longrightarrow> set ms \<subseteq> code ` insert soc S \<and> distinct ms"
    using assms(1) by blast
  moreover have "code soc \<in> code ` insert soc S" by simp
  ultimately show "\<forall>t ms. fst (indexEntry st soc) t = Some ms
      \<longrightarrow> set ms \<subseteq> code ` insert soc S \<and> distinct ms"
    unfolding indexEntry_def Let_def fst_conv by (rule foldl_indexAdd_codes)
next
  show "\<forall>c e. snd (indexEntry st soc) c = Some e \<longrightarrow> e \<in> insert soc S \<and> code e = c"
    using assms(2) by (auto simp: indexEntry_def Let_def split: if_splits)
next
  show "\<forall>e \<in> insert soc S. snd (indexEntry st soc) (code e) \<noteq> None"
    using assms(3) by (auto simp: indexEntry_def Let_def)
qed

lemma foldl_indexEntry_inv:
  assumes "\<forall>t ms. fst st t = Some ms \<longrightarrow> set ms \<subseteq> code ` S \<and> distinct ms"
    and "\<forall>c e. snd st c = Some e \<longrightarrow> e \<in> S \<and> code e = c"
    and "\<forall>e \<in> S. snd st (code e) \<noteq> None"
  shows "(\<forall>t ms. fst (foldl indexEntry st socs) t = Some ms
            \<longrightarrow> set ms \<subseteq> code ` (S \<union> set socs) \<and> distinct ms)
       \<and> (\<forall>c e. snd (foldl indexEntry st socs) c = Some e \<longrightarrow> e \<in> S \<union> set socs \<and> code e = c)
       \<and> (\<forall>e \<in> S \<union> set socs. snd (foldl indexEntry st socs) (code e) \<noteq> None)"
  using assms
proof (induction socs arbitrary: st S)
  case Nil
  then show ?case by simp
next
  case (Cons soc socs)
  from indexEntry_inv [OF Cons.prems, of soc]
  have "(\<forall>t ms. fst (foldl indexEntry (indexEntry st soc) socs) t = Some ms
            \<longrightarrow> set ms \<subseteq> code ` (insert soc S \<union> set socs) \<and> distinct ms)
       \<and> (\<forall>c e. snd (foldl indexEntry (indexEntry st soc) socs) c = Some e
            \<longrightarrow> e \<in> insert soc S \<union> set socs \<and> code e = c)
       \<and> (\<forall>e \<in> insert soc S \<union> set socs. snd (foldl indexEntry (indexEntry st soc) socs) (code e) \<noteq> None)"
    by (intro Cons.IH) blast+
  then show ?case by simp
qed

lemma socCodes_loadEngine: "socCodes (loadEngine socs) = socs"
  by (simp add: loadEngine_def Let_def)

lemma loadEngine_inv:
  "(\<forall>t ms. socIndex (loadEngine socs) t = Some ms \<longrightarrow> set ms \<subseteq> code ` set socs \<and> distinct ms)
   \<and> (\<forall>c e. socByCode (loadEngine socs) c = Some e \<longrightarrow> e \<in> set socs \<and> code e = c)
   \<and> (\<forall>e \<in> set socs. socByCode (loadEngine socs) (code e) \<noteq> None)"
  using foldl_indexEntry_inv [of "(Map.empty, Map.empty)" "{}" socs]
  by (simp add: loadEngine_def Let_def)

lemma socIndex_loadEngine:
  "socIndex (loadEngine socs) t = Some ms \<Longrightarrow> set ms \<subseteq> code ` set socs \<and> distinct ms"
  using loadEngine_inv [of socs] by blast

lemma socByCode_loadEngine:
  "socByCode (loadEngine socs) c = Some e \<Longrightarrow> e \<in> set socs \<and> code e = c"
  using loadEngine_inv [of socs] by blast

lemma socByCode_loadEngine_total:
  "c \<in> code ` set socs \<Longrightarrow> \<exists>e \<in> set socs. socByCode (loadEngine socs) c = Some e \<and> code e = c"
proof -
  assume "c \<in> code ` set socs"
  then obtain e0 where "e0 \<in> set socs" "code e0 = c" by auto
  then have "socByCode (loadEngine socs) c \<noteq> None" using loadEngine_inv [of socs] by blast
  then obtain e where "socByCode (loadEngine socs) c = Some e" by auto
  then show ?thesis using socByCode_loadEngine by blast
qed

lemma keys_indexScores_loadEngine:
  "fst ` set (indexScores ar (loadEngine socs) p) \<subseteq> code ` set socs"
proof -
  have "{c. \<exists>t ms. t \<in> set toks \<and> socIndex (loadEngine socs) t = Some ms \<and> c \<in> set ms}
          \<subseteq> code ` set socs" for toks
    using socIndex_loadEngine [of socs] by blast
  then show ?thesis
    by (simp add: indexScores_def Let_def keys_bigramPass keys_unigramPass)
qed

lemma keys_allScores_loadEngine:
  "fst ` set (allScores ar (loadEngine socs) p) \<subseteq> code ` set socs"
proof -
  have "{code e | e. e \<in> set socs \<and> 0 < titleMatchCountOf ql (tokenize (title e))}
          \<subseteq> code ` set socs" for ql
    by blast
  then show ?thesis
    using keys_indexScores_loadEngine [of ar socs p]
    by (simp add: allScores_def Let_def keys_titlePass socCodes_loadEngine)
qed

section \<open>Ranking: proofs\<close>

lemma sliceTo_take: "\<exists>k. sliceTo xs e = take k xs"
  by (auto simp: sliceTo_def)

lemma set_sliceTo: "set (sliceTo xs e) \<subseteq> set xs"
  by (auto simp: sliceTo_def dest: in_set_takeD)

lemma length_sliceTo:
  "length (sliceTo xs e) = (if e < 0 then length xs - nat (- e) else min (nat e) (length xs))"
  by (auto simp: sliceTo_def)

lemma sliceTo_all: "int (length xs) \<le> e \<Longrightarrow> sliceTo xs e = xs"
  by (auto simp: sliceTo_def)

lemma set_sortByScoreDesc: "set (sortByScoreDesc sc) = set sc"
  by (simp add: sortByScoreDesc_def)

lemma length_sortByScoreDesc: "length (sortByScoreDesc sc) = length sc"
  by (simp add: sortByScoreDesc_def)

lemma distinct_keys_sortByScoreDesc:
  "distinct (map fst sc) \<Longrightarrow> distinct (map fst (sortByScoreDesc sc))"
  by (simp add: sortByScoreDesc_def distinct_map)

lemma set_ranked: "set (ranked ar eng p topN) \<subseteq> set (allScores ar eng p)"
  using set_sliceTo [of "sortByScoreDesc (allScores ar eng p)" topN]
  by (simp add: ranked_def set_sortByScoreDesc)

lemma distinct_ranked: "distinct (map fst (ranked ar eng p topN))"
proof -
  obtain k where k: "ranked ar eng p topN = take k (sortByScoreDesc (allScores ar eng p))"
    unfolding ranked_def using sliceTo_take by blast
  have "distinct (map fst (sortByScoreDesc (allScores ar eng p)))"
    by (rule distinct_keys_sortByScoreDesc) (rule distinct_allScores)
  then show ?thesis unfolding k by (simp add: take_map [symmetric] distinct_take)
qed

lemma length_ranked:
  "length (ranked ar eng p topN) =
     (if topN < 0 then length (allScores ar eng p) - nat (- topN)
      else min (nat topN) (length (allScores ar eng p)))"
  by (simp add: ranked_def length_sliceTo length_sortByScoreDesc)

lemma length_matchSocCodes: "length (matchSocCodes ar eng p topN) = length (ranked ar eng p topN)"
  by (simp add: matchSocCodes_def)

lemma result_codes:
  "map (\<lambda>m. map_option code (entry m)) (matchSocCodes ar (loadEngine socs) p topN)
     = map (\<lambda>r. Some (fst r)) (ranked ar (loadEngine socs) p topN)"
proof -
  have "map_option code (entry (toMatch ar (loadEngine socs) r)) = Some (fst r)"
    if "r \<in> set (ranked ar (loadEngine socs) p topN)" for r
  proof -
    from that have "fst r \<in> fst ` set (allScores ar (loadEngine socs) p)"
      using set_ranked by force
    then have "fst r \<in> code ` set socs"
      using keys_allScores_loadEngine by blast
    then obtain e where "socByCode (loadEngine socs) (fst r) = Some e" "code e = fst r"
      using socByCode_loadEngine_total by blast
    then show ?thesis by (simp add: toMatch_def)
  qed
  then show ?thesis by (simp add: matchSocCodes_def)
qed


section \<open>The examples evaluated\<close>


lemma ex_health_query:
  "tokenize (queryTextOf (exQuery ''Healthcare'')) = [''healthcare'']"
  "toLowerCase (queryTextOf (exQuery ''Healthcare'')) = ''healthcare''"
  by code_simp+

lemma ex_health_index:
  "socIndex (loadEngine exHealth) ''healthcare'' = Some [''29-1141'', ''29-1240'']"
  by code_simp

lemma ex_health_byCode:
  "socByCode (loadEngine exHealth) ''29-1141'' = Some exNurses"
  "socByCode (loadEngine exHealth) ''29-1240'' = Some exSurgeons"
  by code_simp+

lemma ex_health_titles:
  "titleMatchCountOf ''healthcare'' (tokenize (title exNurses)) = 0"
  "titleMatchCountOf ''healthcare'' (tokenize (title exSurgeons)) = 0"
  by code_simp+

lemma ex_health_socs: "socCodes (loadEngine exHealth) = [exNurses, exSurgeons]"
  by (simp add: socCodes_loadEngine exHealth_def)

lemma ex_health_scores:
  "allScores exact (loadEngine exHealth) (exQuery ''Healthcare'') = [(''29-1141'', 0), (''29-1240'', 0)]"
  by (simp add: allScores_def indexScores_def ex_health_query ex_health_index ex_health_titles
      ex_health_socs idfWeight_def addScore_def scoreOf_def exact_arith)

lemma ex_health_sorted:
  "sortByScoreDesc (allScores exact (loadEngine exHealth) (exQuery ''Healthcare'')) = [(''29-1141'', 0), (''29-1240'', 0)]"
  by (simp add: ex_health_scores sortByScoreDesc_def)

lemma ex_health_match:
  "matchSocCodes exact (loadEngine exHealth) (exQuery ''Healthcare'') 10 =
     [\<lparr>entry = Some exNurses, relevanceScore = 0\<rparr>, \<lparr>entry = Some exSurgeons, relevanceScore = 0\<rparr>]"
  by (simp add: matchSocCodes_def ranked_def ex_health_sorted sliceTo_def toMatch_def ex_health_byCode jsRound_def exact_arith)

lemma ex_health_match_neg:
  "matchSocCodes exact (loadEngine exHealth) (exQuery ''Healthcare'') (- 1) =
     [\<lparr>entry = Some exNurses, relevanceScore = 0\<rparr>]"
  by (simp add: matchSocCodes_def ranked_def ex_health_sorted sliceTo_def toMatch_def ex_health_byCode jsRound_def exact_arith)


section \<open>Claims about the size and the content of the result\<close>

lemma tokenize_Nil: "tokenize [] = []"
  by (simp add: tokenize_def toLowerCase_def replaceNonAlnum_def keepWord_def)

lemma queryTextOf_empty:
  assumes "longName p \<in> {None, Some []}" and "name p \<in> {None, Some []}"
    and "type p \<in> {None, Some []}" and "degreeDesignation p \<in> {None, Some []}"
    and "college p \<in> {None, Some []}" and "level p \<in> {None, Some []}"
  shows "queryTextOf p = []"
proof -
  have "\<not> truthy x" if "x \<in> {None, Some []}" for x
    using that by (auto simp: truthy_def)
  then show ?thesis using assms by (simp add: queryTextOf_def)
qed

lemma titleMatchCountOf_Nil: "titleMatchCountOf [] (tokenize s) = 0"
proof -
  have "t \<noteq> []" if "t \<in> set (tokenize s)" for t
    using tokenize_keep [OF that] by auto
  then have "filter (\<lambda>t. includesStr [] t) (tokenize s) = []"
    by (simp add: filter_empty_conv)
  then show ?thesis by (simp add: titleMatchCountOf_def)
qed

lemma titlePass_Nil: "titlePass ar [] socs sc = sc"
  by (induction socs arbitrary: sc) (simp_all add: titleMatchCountOf_Nil)

text \<open>
  C10. When the six query fields \<open>longName\<close>, \<open>name\<close>, \<open>type\<close>, \<open>degreeDesignation\<close>,
  \<open>college\<close> and \<open>level\<close> are all missing or empty, \<open>matchSocCodes\<close> returns the empty
  sequence, for every index and every \<open>topN\<close>: the query text is empty, so there is no
  query token and no bigram, and no title token occurs in the empty text.
\<close>

theorem empty_query_no_match:
  assumes "longName p \<in> {None, Some []}" and "name p \<in> {None, Some []}"
    and "type p \<in> {None, Some []}" and "degreeDesignation p \<in> {None, Some []}"
    and "college p \<in> {None, Some []}" and "level p \<in> {None, Some []}"
  shows "queryTextOf p = [] \<and> allScores ar eng p = [] \<and> matchSocCodes ar eng p topN = []"
proof -
  have q: "queryTextOf p = []" using assms by (rule queryTextOf_empty)
  have a: "allScores ar eng p = []"
    by (simp add: allScores_def indexScores_def q tokenize_Nil toLowerCase_def titlePass_Nil)
  have "matchSocCodes ar eng p topN = []"
    by (simp add: matchSocCodes_def ranked_def a sortByScoreDesc_def sliceTo_def)
  with q a show ?thesis by simp
qed

theorem empty_query_no_match_witness:
  "matchSocCodes exact (loadEngine exHealth)
     \<lparr>name = None, longName = Some [], cipCode = Some ''51.3801'', type = None,
      degreeDesignation = Some [], college = None, level = None\<rparr> 10 = []"
  using empty_query_no_match
    [where p = "\<lparr>name = None, longName = Some [], cipCode = Some ''51.3801'', type = None,
          degreeDesignation = Some [], college = None, level = None\<rparr>"
       and eng = "loadEngine exHealth" and topN = 10 and ar = exact]
  by simp

text \<open>
  C2. Every code that \<open>matchSocCodes\<close> returns is the code of an entry of the taxonomy
  the index was built from: every code set of the index holds codes of the taxonomy
  only, so does the score map after the three passes, and each result carries the
  taxonomy entry stored under its ranked code.
\<close>

theorem matched_codes_in_taxonomy:
  "(\<forall>t ms. socIndex (loadEngine socs) t = Some ms \<longrightarrow> set ms \<subseteq> code ` set socs)
   \<and> fst ` set (allScores ar (loadEngine socs) p) \<subseteq> code ` set socs
   \<and> (\<forall>m \<in> set (matchSocCodes ar (loadEngine socs) p topN).
         \<exists>e \<in> set socs. entry m = Some e
                        \<and> code e \<in> fst ` set (allScores ar (loadEngine socs) p))"
proof (intro conjI)
  show "\<forall>t ms. socIndex (loadEngine socs) t = Some ms \<longrightarrow> set ms \<subseteq> code ` set socs"
    using socIndex_loadEngine by blast
next
  show "fst ` set (allScores ar (loadEngine socs) p) \<subseteq> code ` set socs"
    by (rule keys_allScores_loadEngine)
next
  show "\<forall>m \<in> set (matchSocCodes ar (loadEngine socs) p topN).
         \<exists>e \<in> set socs. entry m = Some e \<and> code e \<in> fst ` set (allScores ar (loadEngine socs) p)"
  proof
    fix m
    assume "m \<in> set (matchSocCodes ar (loadEngine socs) p topN)"
    then obtain r where r: "r \<in> set (ranked ar (loadEngine socs) p topN)"
      and m: "m = toMatch ar (loadEngine socs) r"
      by (auto simp: matchSocCodes_def)
    from r have k: "fst r \<in> fst ` set (allScores ar (loadEngine socs) p)"
      using set_ranked by force
    then have "fst r \<in> code ` set socs"
      using keys_allScores_loadEngine by blast
    then obtain e where "e \<in> set socs" "socByCode (loadEngine socs) (fst r) = Some e" "code e = fst r"
      using socByCode_loadEngine_total by blast
    then show "\<exists>e \<in> set socs. entry m = Some e \<and> code e \<in> fst ` set (allScores ar (loadEngine socs) p)"
      using k m by (auto simp: toMatch_def)
  qed
qed

theorem matched_codes_in_taxonomy_witness:
  "socIndex (loadEngine exHealth) ''healthcare'' = Some [''29-1141'', ''29-1240'']
   \<and> set [''29-1141'', ''29-1240''] \<subseteq> code ` set exHealth
   \<and> \<lparr>entry = Some exNurses, relevanceScore = 0\<rparr>
        \<in> set (matchSocCodes exact (loadEngine exHealth) (exQuery ''Healthcare'') 10)
   \<and> exNurses \<in> set exHealth
   \<and> code exNurses \<in> fst ` set (allScores exact (loadEngine exHealth) (exQuery ''Healthcare''))"
proof -
  note t = matched_codes_in_taxonomy
    [where socs = exHealth and p = "exQuery ''Healthcare''" and topN = 10 and ar = exact]
  have i: "socIndex (loadEngine exHealth) ''healthcare'' = Some [''29-1141'', ''29-1240'']"
    by (rule ex_health_index)
  with t have s: "set [''29-1141'', ''29-1240''] \<subseteq> code ` set exHealth" by blast
  have m: "\<lparr>entry = Some exNurses, relevanceScore = 0\<rparr>
        \<in> set (matchSocCodes exact (loadEngine exHealth) (exQuery ''Healthcare'') 10)"
    by (simp add: ex_health_match)
  with t have "\<exists>e \<in> set exHealth. entry \<lparr>entry = Some exNurses, relevanceScore = 0\<rparr> = Some e
      \<and> code e \<in> fst ` set (allScores exact (loadEngine exHealth) (exQuery ''Healthcare''))"
    by blast
  then have "exNurses \<in> set exHealth
      \<and> code exNurses \<in> fst ` set (allScores exact (loadEngine exHealth) (exQuery ''Healthcare''))"
    by simp
  with i s m show ?thesis by simp
qed

text \<open>
  C3, as the code has it. For \<open>topN \<ge> 0\<close> the result has at most \<open>topN\<close> elements, and
  it is empty for \<open>topN = 0\<close>. For a negative \<open>topN\<close> the result is not empty in general:
  \<open>slice(0, topN)\<close> counts a negative end from the end of the array, so the result is
  the whole ranking without its last \<open>- topN\<close> elements.
\<close>

theorem matchSocCodes_length:
  "(0 \<le> topN \<longrightarrow> length (matchSocCodes ar eng p topN) \<le> nat topN)
   \<and> matchSocCodes ar eng p 0 = []
   \<and> (topN < 0 \<longrightarrow>
        matchSocCodes ar eng p topN =
          take (length (allScores ar eng p) - nat (- topN))
            (map (toMatch ar eng) (sortByScoreDesc (allScores ar eng p))))"
proof (intro conjI impI)
  assume "0 \<le> topN"
  then show "length (matchSocCodes ar eng p topN) \<le> nat topN"
    by (simp add: length_matchSocCodes length_ranked)
next
  show "matchSocCodes ar eng p 0 = []"
    by (simp add: matchSocCodes_def ranked_def sliceTo_def)
next
  assume "topN < 0"
  then have "int (length (allScores ar eng p)) + topN = int (length (allScores ar eng p)) - int (nat (- topN))"
    by simp
  then have "nat (int (length (allScores ar eng p)) + topN) = length (allScores ar eng p) - nat (- topN)"
    by (simp add: nat_diff_distrib' del: int_nat_eq)
  then show "matchSocCodes ar eng p topN =
          take (length (allScores ar eng p) - nat (- topN))
            (map (toMatch ar eng) (sortByScoreDesc (allScores ar eng p)))"
    using \<open>topN < 0\<close>
    by (simp add: matchSocCodes_def ranked_def sliceTo_def length_sortByScoreDesc take_map)
qed

theorem matchSocCodes_length_witness:
  "(0::int) \<le> 1 \<and> length (matchSocCodes exact (loadEngine exHealth) (exQuery ''Healthcare'') 1) \<le> nat 1
   \<and> (- 1 :: int) < 0
   \<and> matchSocCodes exact (loadEngine exHealth) (exQuery ''Healthcare'') (- 1) =
        take (length (allScores exact (loadEngine exHealth) (exQuery ''Healthcare'')) - nat (- (- 1)))
          (map (toMatch exact (loadEngine exHealth))
             (sortByScoreDesc (allScores exact (loadEngine exHealth) (exQuery ''Healthcare''))))"
  using matchSocCodes_length
      [where topN = 1 and eng = "loadEngine exHealth" and p = "exQuery ''Healthcare''" and ar = exact]
    matchSocCodes_length
      [where topN = "- 1" and eng = "loadEngine exHealth" and p = "exQuery ''Healthcare''"
         and ar = exact]
  by simp

text \<open>
  C3 as stated fails: with \<open>topN = -1\<close> the two-entry taxonomy and the query
  \<open>Healthcare\<close> give one result, not the empty sequence.
\<close>

theorem negative_topN_counterexample:
  "(- 1 :: int) \<le> 0
   \<and> matchSocCodes exact (loadEngine exHealth) (exQuery ''Healthcare'') (- 1)
       = [\<lparr>entry = Some exNurses, relevanceScore = 0\<rparr>]
   \<and> matchSocCodes exact (loadEngine exHealth) (exQuery ''Healthcare'') (- 1) \<noteq> []"
  by (simp add: ex_health_match_neg)


section \<open>Order of the result: proofs\<close>

lemma nth_split_two:
  assumes "i < j" and "j < length ys"
  shows "\<exists>as bs cs. ys = as @ ys ! i # bs @ ys ! j # cs"
proof -
  have i: "i < length ys" using assms by simp
  have "ys = take i ys @ ys ! i # drop (Suc i) ys"
    by (rule id_take_nth_drop [OF i])
  moreover have "j - Suc i < length (drop (Suc i) ys)" using assms by simp
  then have "drop (Suc i) ys =
      take (j - Suc i) (drop (Suc i) ys) @ drop (Suc i) ys ! (j - Suc i)
        # drop (Suc (j - Suc i)) (drop (Suc i) ys)"
    by (rule id_take_nth_drop)
  moreover have "drop (Suc i) ys ! (j - Suc i) = ys ! j" using assms by simp
  ultimately have "ys = take i ys @ ys ! i # take (j - Suc i) (drop (Suc i) ys) @ ys ! j
        # drop (Suc (j - Suc i)) (drop (Suc i) ys)"
    by simp
  then show ?thesis by blast
qed

lemma filter_split_two:
  "filter P xs = as @ x # bs @ y # cs \<Longrightarrow> \<exists>as' bs' cs'. xs = as' @ x # bs' @ y # cs'"
proof (induction xs arbitrary: as)
  case Nil
  then show ?case by simp
next
  case (Cons z xs)
  show ?case
  proof (cases "P z")
    case False
    then have "filter P xs = as @ x # bs @ y # cs" using Cons.prems by simp
    from Cons.IH [OF this] obtain as' bs' cs' where "xs = as' @ x # bs' @ y # cs'" by blast
    then have "z # xs = (z # as') @ x # bs' @ y # cs'" by simp
    then show ?thesis by blast
  next
    case True
    then have f: "z # filter P xs = as @ x # bs @ y # cs" using Cons.prems by simp
    show ?thesis
    proof (cases as)
      case Nil
      then have zx: "z = x" and r: "filter P xs = bs @ y # cs" using f by simp_all
      from r have "y \<in> set (filter P xs)" by simp
      then have "y \<in> set xs" by simp
      then obtain bs' cs' where "xs = bs' @ y # cs'" by (auto simp: in_set_conv_decomp)
      then have "z # xs = [] @ x # bs' @ y # cs'" using zx by simp
      then show ?thesis by blast
    next
      case (Cons a as0)
      then have "filter P xs = as0 @ x # bs @ y # cs" using f by simp
      from Cons.IH [OF this] obtain as' bs' cs' where "xs = as' @ x # bs' @ y # cs'" by blast
      then have "z # xs = (z # as') @ x # bs' @ y # cs'" by simp
      then show ?thesis by blast
    qed
  qed
qed

lemma sort_key_keeps_order:
  assumes "i < j" and "j < length (sort_key f xs)"
    and "f (sort_key f xs ! i) = f (sort_key f xs ! j)"
  shows "\<exists>as bs cs. xs = as @ sort_key f xs ! i # bs @ sort_key f xs ! j # cs"
proof -
  let ?ys = "sort_key f xs"
  let ?P = "\<lambda>y. f y = f (?ys ! i)"
  from nth_split_two [OF assms(1,2)]
  obtain as bs cs where ys: "?ys = as @ ?ys ! i # bs @ ?ys ! j # cs" by blast
  have "filter ?P ?ys = filter ?P (as @ ?ys ! i # bs @ ?ys ! j # cs)"
    using ys by simp
  also have "\<dots> = filter ?P as @ ?ys ! i # filter ?P bs @ ?ys ! j # filter ?P cs"
    using assms(3) by simp
  finally have "filter ?P xs = filter ?P as @ ?ys ! i # filter ?P bs @ ?ys ! j # filter ?P cs"
    by (simp only: sort_key_stable)
  then show ?thesis by (rule filter_split_two)
qed

lemma sorted_sortByScoreDesc:
  "sorted_wrt (\<lambda>a b. snd b \<le> snd a) (sortByScoreDesc sc)"
proof -
  have "sorted (map (\<lambda>p. - snd p) (sort_key (\<lambda>p. - snd p) sc))"
    by (rule sorted_sort_key)
  then show ?thesis by (simp add: sortByScoreDesc_def sorted_wrt_map)
qed

lemma sorted_ranked: "sorted_wrt (\<lambda>a b. snd b \<le> snd a) (ranked ar eng p topN)"
proof -
  obtain k where k: "ranked ar eng p topN = take k (sortByScoreDesc (allScores ar eng p))"
    unfolding ranked_def using sliceTo_take by blast
  show ?thesis unfolding k by (rule sorted_wrt_take) (rule sorted_sortByScoreDesc)
qed

lemma ranked_keeps_order:
  assumes "i < j" and "j < length (ranked ar eng p topN)"
    and "snd (ranked ar eng p topN ! i) = snd (ranked ar eng p topN ! j)"
  shows "\<exists>as bs cs. allScores ar eng p = as @ ranked ar eng p topN ! i # bs @ ranked ar eng p topN ! j # cs"
proof -
  obtain k where k: "ranked ar eng p topN = take k (sortByScoreDesc (allScores ar eng p))"
    unfolding ranked_def using sliceTo_take by blast
  let ?ys = "sort_key (\<lambda>p. - snd p) (allScores ar eng p)"
  have r: "ranked ar eng p topN = take k ?ys" using k by (simp add: sortByScoreDesc_def)
  have j: "j < length ?ys" and jk: "j < k" using assms(2) r by simp_all
  have ri: "ranked ar eng p topN ! i = ?ys ! i" and rj: "ranked ar eng p topN ! j = ?ys ! j"
    using assms(1) jk r by simp_all
  have "- snd (?ys ! i) = - snd (?ys ! j)" using assms(3) ri rj by simp
  from sort_key_keeps_order [of i j "\<lambda>p. - snd p" "allScores ar eng p", OF assms(1) j this]
  show ?thesis using ri rj by simp
qed

lemma jsRound_mono: "x \<le> y \<Longrightarrow> jsRound x \<le> jsRound y"
  by (simp add: jsRound_def floor_mono)

lemma relevanceScore_mono:
  assumes "\<forall>x y. x \<le> y \<longrightarrow> fmul ar x 100 \<le> fmul ar y 100"
    and "\<forall>x y. x \<le> y \<longrightarrow> fdiv ar x 100 \<le> fdiv ar y 100"
    and "snd b \<le> snd a"
  shows "relevanceScore (toMatch ar eng b) \<le> relevanceScore (toMatch ar eng a)"
proof -
  have "fmul ar (snd b) 100 \<le> fmul ar (snd a) 100" using assms(1,3) by blast
  then have "real_of_int (jsRound (fmul ar (snd b) 100)) \<le> real_of_int (jsRound (fmul ar (snd a) 100))"
    by (simp add: jsRound_mono)
  then show ?thesis using assms(2) by (simp add: toMatch_def)
qed

lemma sorted_matchSocCodes:
  assumes "\<forall>x y. x \<le> y \<longrightarrow> fmul ar x 100 \<le> fmul ar y 100"
    and "\<forall>x y. x \<le> y \<longrightarrow> fdiv ar x 100 \<le> fdiv ar y 100"
  shows "sorted_wrt (\<lambda>a b. relevanceScore b \<le> relevanceScore a) (matchSocCodes ar eng p topN)"
proof -
  have "sorted_wrt (\<lambda>a b. relevanceScore (toMatch ar eng b) \<le> relevanceScore (toMatch ar eng a))
          (ranked ar eng p topN)"
    by (rule sorted_wrt_mono_rel [OF _ sorted_ranked]) (rule relevanceScore_mono [OF assms])
  then show ?thesis by (simp add: matchSocCodes_def sorted_wrt_map)
qed

lemma scoreOf_member:
  "distinct (map fst sc) \<Longrightarrow> r \<in> set sc \<Longrightarrow> scoreOf sc (fst r) = snd r"
  by (cases r) (simp add: scoreOf_def)

lemma ex_long_query:
  "tokenize (queryTextOf (exQuery ''xaaax'')) = [''xaaax'']"
  "toLowerCase (queryTextOf (exQuery ''xaaax'')) = ''xaaax''"
  by code_simp+

lemma ex_long_index: "socIndex (loadEngine exLong) ''xaaax'' = None"
  by code_simp

lemma ex_long_byCode:
  "socByCode (loadEngine exLong) ''10-0035'' = Some exLong35"
  "socByCode (loadEngine exLong) ''10-0034'' = Some exLong34"
  by code_simp+

lemma ex_long_titles:
  "titleMatchCountOf ''xaaax'' (tokenize (title exLong35)) = 1"
  "length (tokenize (title exLong35)) = 35"
  "titleMatchCountOf ''xaaax'' (tokenize (title exLong34)) = 1"
  "length (tokenize (title exLong34)) = 34"
  by code_simp+

lemma ex_long_socs: "socCodes (loadEngine exLong) = [exLong35, exLong34]"
  by (simp add: socCodes_loadEngine exLong_def)

lemma ex_long_codes: "code exLong35 = ''10-0035''" "code exLong34 = ''10-0034''"
  by (simp_all add: exLong35_def exLong34_def)

lemma ex_long_scores:
  "allScores exact (loadEngine exLong) (exQuery ''xaaax'')
     = [(''10-0035'', 2 / 7), (''10-0034'', 5 / 17)]"
  by (simp add: allScores_def indexScores_def ex_long_query ex_long_index ex_long_socs
      ex_long_titles ex_long_codes addScore_def scoreOf_def exact_arith)

lemma ex_long_sorted:
  "sortByScoreDesc (allScores exact (loadEngine exLong) (exQuery ''xaaax''))
     = [(''10-0034'', 5 / 17), (''10-0035'', 2 / 7)]"
  by (simp add: ex_long_scores sortByScoreDesc_def)

lemma ex_long_round: "jsRound (2 / 7 * 100) = 29" "jsRound (5 / 17 * 100) = 29"
  by (simp_all add: jsRound_def floor_eq_iff)

lemma ex_long_match:
  "matchSocCodes exact (loadEngine exLong) (exQuery ''xaaax'') 10 =
     [\<lparr>entry = Some exLong34, relevanceScore = 29 / 100\<rparr>,
      \<lparr>entry = Some exLong35, relevanceScore = 29 / 100\<rparr>]"
  using ex_long_round
  by (simp add: matchSocCodes_def ranked_def ex_long_sorted sliceTo_def toMatch_def
      ex_long_byCode exact_arith)

text \<open>
  C1, as the code has it. The code sorts the accumulated scores, before it rounds
  them. So the accumulated scores of the results are non-increasing, and of two
  results whose codes have equal accumulated scores, the one whose code was inserted
  into the score map first comes first. Rounding does not reverse an order (the
  product with 100 and the quotient by 100 of doubles are monotone), so the sequence is
  sorted by non-increasing \<open>relevanceScore\<close> too; but two results that are equal only
  in the rounded \<open>relevanceScore\<close> stand in the order of their accumulated scores, not
  in insertion order. The score map keeps insertion order: its keys are distinct, the
  keys after the unigram pass are a prefix of those after the bigram pass, and these
  are a prefix of those after the title pass. All of this holds for every arithmetic.
\<close>

theorem ranking_order:
  fixes ar socs p topN
  defines "eng \<equiv> loadEngine socs"
  defines "A \<equiv> allScores ar eng p"
  defines "R \<equiv> matchSocCodes ar eng p topN"
  shows "(\<forall>i j. i < j \<and> j < length R \<longrightarrow>
          (\<exists>ei ej. entry (R ! i) = Some ei \<and> entry (R ! j) = Some ej
             \<and> scoreOf A (code ej) \<le> scoreOf A (code ei)
             \<and> (scoreOf A (code ei) = scoreOf A (code ej) \<longrightarrow>
                  (\<exists>as bs cs. map fst A = as @ code ei # bs @ code ej # cs))))
    \<and> ((\<forall>x y. x \<le> y \<longrightarrow> fmul ar x 100 \<le> fmul ar y 100)
        \<and> (\<forall>x y. x \<le> y \<longrightarrow> fdiv ar x 100 \<le> fdiv ar y 100)
        \<longrightarrow> sorted_wrt (\<lambda>a b. relevanceScore b \<le> relevanceScore a) R)
    \<and> distinct (map fst A)
    \<and> prefix (map fst (unigramPass ar eng (tokenize (queryTextOf p)) []))
         (map fst (indexScores ar eng p))
    \<and> prefix (map fst (indexScores ar eng p)) (map fst A)"
proof (intro conjI allI impI)
  assume "(\<forall>x y. x \<le> y \<longrightarrow> fmul ar x 100 \<le> fmul ar y 100)
        \<and> (\<forall>x y. x \<le> y \<longrightarrow> fdiv ar x 100 \<le> fdiv ar y 100)"
  then show "sorted_wrt (\<lambda>a b. relevanceScore b \<le> relevanceScore a) R"
    unfolding R_def by (intro sorted_matchSocCodes) blast+
next
  show d: "distinct (map fst A)" unfolding A_def by (rule distinct_allScores)
next
  show "prefix (map fst (unigramPass ar eng (tokenize (queryTextOf p)) []))
         (map fst (indexScores ar eng p))"
    by (simp add: indexScores_def Let_def prefix_bigramPass)
next
  show "prefix (map fst (indexScores ar eng p)) (map fst A)"
    by (simp add: A_def allScores_def Let_def prefix_titlePass)
next
  fix i j
  assume ij: "i < j \<and> j < length R"
  let ?r = "ranked ar eng p topN"
  have d: "distinct (map fst A)" unfolding A_def by (rule distinct_allScores)
  have len: "length R = length ?r" unfolding R_def by (rule length_matchSocCodes)
  have i: "i < length ?r" and j: "j < length ?r" using ij len by simp_all
  have Ri: "R ! i = toMatch ar eng (?r ! i)" and Rj: "R ! j = toMatch ar eng (?r ! j)"
    using i j by (simp_all add: R_def matchSocCodes_def)
  have mem: "?r ! k \<in> set A" if "k < length ?r" for k
    using that set_ranked [of ar eng p topN] nth_mem [of k ?r] unfolding A_def by blast
  have ent: "\<exists>e. socByCode eng (fst (?r ! k)) = Some e \<and> code e = fst (?r ! k)"
    if "k < length ?r" for k
  proof -
    have "fst (?r ! k) \<in> fst ` set A" using mem [OF that] by simp
    then have "fst (?r ! k) \<in> code ` set socs"
      using keys_allScores_loadEngine [of ar socs p] unfolding A_def eng_def by blast
    then show ?thesis
      using socByCode_loadEngine_total [of "fst (?r ! k)" socs] unfolding eng_def by blast
  qed
  from ent [OF i] obtain ei where ei: "socByCode eng (fst (?r ! i)) = Some ei" "code ei = fst (?r ! i)"
    by blast
  from ent [OF j] obtain ej where ej: "socByCode eng (fst (?r ! j)) = Some ej" "code ej = fst (?r ! j)"
    by blast
  have si: "scoreOf A (code ei) = snd (?r ! i)"
    using scoreOf_member [OF d mem [OF i]] ei(2) by simp
  have sj: "scoreOf A (code ej) = snd (?r ! j)"
    using scoreOf_member [OF d mem [OF j]] ej(2) by simp
  have le: "scoreOf A (code ej) \<le> scoreOf A (code ei)"
    using sorted_wrt_nth_less [OF sorted_ranked [of ar eng p topN] _ j, of i] ij si sj by simp
  have ord: "\<exists>as bs cs. map fst A = as @ code ei # bs @ code ej # cs"
    if "scoreOf A (code ei) = scoreOf A (code ej)"
  proof -
    from that have "snd (?r ! i) = snd (?r ! j)" using si sj by simp
    from ranked_keeps_order [of i j ar eng p topN, OF _ j this] ij
    obtain as bs cs where "A = as @ ?r ! i # bs @ ?r ! j # cs" unfolding A_def by blast
    then have "map fst A = map fst as @ code ei # map fst bs @ code ej # map fst cs"
      using ei(2) ej(2) by simp
    then show ?thesis by blast
  qed
  show "\<exists>ei ej. entry (R ! i) = Some ei \<and> entry (R ! j) = Some ej
             \<and> scoreOf A (code ej) \<le> scoreOf A (code ei)
             \<and> (scoreOf A (code ei) = scoreOf A (code ej) \<longrightarrow>
                  (\<exists>as bs cs. map fst A = as @ code ei # bs @ code ej # cs))"
    using Ri Rj ei(1) ej(1) le ord by (auto simp: toMatch_def)
qed

theorem ranking_order_witness:
  "(0::nat) < 1
   \<and> 1 < length (matchSocCodes exact (loadEngine exHealth) (exQuery ''Healthcare'') 10)
   \<and> entry (matchSocCodes exact (loadEngine exHealth) (exQuery ''Healthcare'') 10 ! 0) = Some exNurses
   \<and> entry (matchSocCodes exact (loadEngine exHealth) (exQuery ''Healthcare'') 10 ! 1) = Some exSurgeons
   \<and> scoreOf (allScores exact (loadEngine exHealth) (exQuery ''Healthcare'')) (code exNurses)
       = scoreOf (allScores exact (loadEngine exHealth) (exQuery ''Healthcare'')) (code exSurgeons)
   \<and> (\<exists>as bs cs. map fst (allScores exact (loadEngine exHealth) (exQuery ''Healthcare''))
         = as @ code exNurses # bs @ code exSurgeons # cs)
   \<and> relevanceScore (matchSocCodes exact (loadEngine exHealth) (exQuery ''Healthcare'') 10 ! 1)
       \<le> relevanceScore (matchSocCodes exact (loadEngine exHealth) (exQuery ''Healthcare'') 10 ! 0)"
proof -
  let ?R = "matchSocCodes exact (loadEngine exHealth) (exQuery ''Healthcare'') 10"
  let ?A = "allScores exact (loadEngine exHealth) (exQuery ''Healthcare'')"
  note t = ranking_order
    [where socs = exHealth and p = "exQuery ''Healthcare''" and topN = 10 and ar = exact]
  have len: "(0::nat) < 1 \<and> 1 < length ?R" by (simp add: ex_health_match)
  have e0: "entry (?R ! 0) = Some exNurses" and e1: "entry (?R ! 1) = Some exSurgeons"
    by (simp_all add: ex_health_match)
  have eq: "scoreOf ?A (code exNurses) = scoreOf ?A (code exSurgeons)"
    by (simp add: ex_health_scores scoreOf_def exNurses_def exSurgeons_def)
  have mono: "(\<forall>x y. x \<le> y \<longrightarrow> fmul exact x 100 \<le> fmul exact y 100)
      \<and> (\<forall>x y. x \<le> y \<longrightarrow> fdiv exact x 100 \<le> fdiv exact y 100)"
    by (simp add: exact_arith divide_right_mono)
  from t len
  have "\<exists>ei ej. entry (?R ! 0) = Some ei \<and> entry (?R ! 1) = Some ej
             \<and> scoreOf ?A (code ej) \<le> scoreOf ?A (code ei)
             \<and> (scoreOf ?A (code ei) = scoreOf ?A (code ej) \<longrightarrow>
                  (\<exists>as bs cs. map fst ?A = as @ code ei # bs @ code ej # cs))"
    by blast
  then have o: "\<exists>as bs cs. map fst ?A = as @ code exNurses # bs @ code exSurgeons # cs"
    using e0 e1 eq by auto
  from t mono have "sorted_wrt (\<lambda>a b. relevanceScore b \<le> relevanceScore a) ?R"
    by blast
  then have s: "relevanceScore (?R ! 1) \<le> relevanceScore (?R ! 0)"
    using len by (simp add: sorted_wrt_iff_nth_less)
  from len e0 e1 eq o s show ?thesis by blast
qed

text \<open>
  C1 as stated fails for results that are equal in \<open>relevanceScore\<close>. The title loop
  inserts \<open>10-0035\<close> first, with one of 35 title tokens in the query (bonus \<open>10 / 35\<close>),
  then \<open>10-0034\<close> with one of 34 (bonus \<open>10 / 34\<close>). Both round to \<open>0.29\<close>, and
  \<open>10-0034\<close> is returned first. The doubles the program computes here are
  \<open>0.2857142857142857\<close> and \<open>0.29411764705882354\<close>, with the same order and the same
  two decimals.
\<close>

theorem rounded_tie_counterexample:
  "map fst (allScores exact (loadEngine exLong) (exQuery ''xaaax'')) = [''10-0035'', ''10-0034'']
   \<and> matchSocCodes exact (loadEngine exLong) (exQuery ''xaaax'') 10 =
       [\<lparr>entry = Some exLong34, relevanceScore = 29 / 100\<rparr>,
        \<lparr>entry = Some exLong35, relevanceScore = 29 / 100\<rparr>]"
  by (simp add: ex_long_scores ex_long_match)

text \<open>
  C4, as the code has it. The result holds codes of the score map only, each at most
  once; when the score map has no more than \<open>topN\<close> codes the result holds them all.
  The code does not look at the value of a score: a code that is in the score map
  with score 0 is returned like any other. This holds for every arithmetic.
\<close>

theorem result_from_score_map:
  fixes ar socs p topN
  defines "eng \<equiv> loadEngine socs"
  defines "A \<equiv> allScores ar eng p"
  defines "R \<equiv> matchSocCodes ar eng p topN"
  shows "(\<forall>m \<in> set R. \<exists>r \<in> set A. map_option code (entry m) = Some (fst r))
    \<and> distinct (map (\<lambda>m. map_option code (entry m)) R)
    \<and> (int (length A) \<le> topN \<longrightarrow>
         length R = length A
         \<and> set (map (\<lambda>m. map_option code (entry m)) R) = (\<lambda>r. Some (fst r)) ` set A)"
proof (intro conjI impI)
  have rc: "map (\<lambda>m. map_option code (entry m)) R = map (\<lambda>r. Some (fst r)) (ranked ar eng p topN)"
    unfolding R_def eng_def by (rule result_codes)
  show "\<forall>m \<in> set R. \<exists>r \<in> set A. map_option code (entry m) = Some (fst r)"
  proof
    fix m
    assume "m \<in> set R"
    then obtain k where k: "k < length R" and m: "m = R ! k"
      by (auto simp: in_set_conv_nth)
    have kr: "k < length (ranked ar eng p topN)"
      using k by (simp add: R_def length_matchSocCodes)
    have "map (\<lambda>m. map_option code (entry m)) R ! k
        = map (\<lambda>r. Some (fst r)) (ranked ar eng p topN) ! k"
      using rc by simp
    then have c: "map_option code (entry m) = Some (fst (ranked ar eng p topN ! k))"
      using k kr m by simp
    have "ranked ar eng p topN ! k \<in> set A"
      using set_ranked [of ar eng p topN] nth_mem [OF kr] unfolding A_def by blast
    then show "\<exists>r \<in> set A. map_option code (entry m) = Some (fst r)"
      using c by blast
  qed
  have "distinct (map fst (ranked ar eng p topN))" by (rule distinct_ranked)
  then have "distinct (map Some (map fst (ranked ar eng p topN)))"
    by (subst distinct_map) simp
  then show "distinct (map (\<lambda>m. map_option code (entry m)) R)"
    by (simp add: rc comp_def)
  assume all: "int (length A) \<le> topN"
  have "int (length (sortByScoreDesc A)) \<le> topN" using all by (simp add: length_sortByScoreDesc)
  then have r: "ranked ar eng p topN = sortByScoreDesc A"
    unfolding ranked_def A_def by (rule sliceTo_all)
  show "length R = length A"
    by (simp add: R_def length_matchSocCodes r length_sortByScoreDesc)
  show "set (map (\<lambda>m. map_option code (entry m)) R) = (\<lambda>r. Some (fst r)) ` set A"
    by (simp add: rc r set_sortByScoreDesc)
qed

theorem result_from_score_map_witness:
  "\<lparr>entry = Some exNurses, relevanceScore = 0\<rparr>
      \<in> set (matchSocCodes exact (loadEngine exHealth) (exQuery ''Healthcare'') 10)
   \<and> int (length (allScores exact (loadEngine exHealth) (exQuery ''Healthcare''))) \<le> 10
   \<and> length (matchSocCodes exact (loadEngine exHealth) (exQuery ''Healthcare'') 10)
       = length (allScores exact (loadEngine exHealth) (exQuery ''Healthcare''))
   \<and> (\<exists>r \<in> set (allScores exact (loadEngine exHealth) (exQuery ''Healthcare'')).
         map_option code (entry \<lparr>entry = Some exNurses, relevanceScore = 0\<rparr>) = Some (fst r))"
proof -
  let ?R = "matchSocCodes exact (loadEngine exHealth) (exQuery ''Healthcare'') 10"
  let ?A = "allScores exact (loadEngine exHealth) (exQuery ''Healthcare'')"
  note t = result_from_score_map
    [where socs = exHealth and p = "exQuery ''Healthcare''" and topN = 10 and ar = exact]
  have m: "\<lparr>entry = Some exNurses, relevanceScore = 0\<rparr> \<in> set ?R"
    by (simp add: ex_health_match)
  have l: "int (length ?A) \<le> 10" by (simp add: ex_health_scores)
  from t l have "length ?R = length ?A" by blast
  moreover from t m have "\<exists>r \<in> set ?A.
         map_option code (entry \<lparr>entry = Some exNurses, relevanceScore = 0\<rparr>) = Some (fst r)"
    by blast
  ultimately show ?thesis using m l by blast
qed

text \<open>
  C4 as stated fails: in the taxonomy of two healthcare entries the token
  \<open>healthcare\<close> occurs in both, so its weight is \<open>Math.log(2 / 2) = 0\<close>. For the query
  \<open>Healthcare\<close> no code has a score other than 0, and both codes are returned.
\<close>

theorem zero_score_counterexample:
  "allScores exact (loadEngine exHealth) (exQuery ''Healthcare'') = [(''29-1141'', 0), (''29-1240'', 0)]
   \<and> matchSocCodes exact (loadEngine exHealth) (exQuery ''Healthcare'') 10 =
       [\<lparr>entry = Some exNurses, relevanceScore = 0\<rparr>,
        \<lparr>entry = Some exSurgeons, relevanceScore = 0\<rparr>]"
  by (simp add: ex_health_scores ex_health_match)

section \<open>Claims about the weights\<close>






lemma ex_mixed_socs: "socCodes (loadEngine exMixed) = [exArt, exNurses]"
  by (simp add: socCodes_loadEngine exMixed_def)


lemma ex_mixed_index:
  "socIndex (loadEngine exMixed) ''art'' = Some [''27-1011'']"
  "socIndex (loadEngine exMixed) ''art_directors'' = Some [''27-1011'']"
  "socIndex (loadEngine exMixed) ''smart'' = None"
  by code_simp+



lemma titlePass_append:
  "titlePass ar ql (pre @ post) sc = titlePass ar ql post (titlePass ar ql pre sc)"
  by (induction pre arbitrary: sc) (simp_all add: Let_def)

lemma titleMatchCountOf_le: "titleMatchCountOf ql ts \<le> length ts"
  by (simp add: titleMatchCountOf_def)

lemma ex_smart_query:
  "tokenize (queryTextOf (exQuery ''Smart'')) = [''smart'']"
  "toLowerCase (queryTextOf (exQuery ''Smart'')) = ''smart''"
  by code_simp+

lemma ex_smart_titles:
  "tokenize (title exArt) = [''art'', ''directors'']"
  "titleMatchCountOf ''smart'' [''art'', ''directors''] = 1"
  by code_simp+

lemma ex_smart_indexScores: "indexScores exact (loadEngine exMixed) (exQuery ''Smart'') = []"
  by (simp add: indexScores_def ex_smart_query ex_mixed_index)

text \<open>
  C5. Let \<open>k > 0\<close> of the title tokens of an entry occur as substrings of the
  lower-cased query text, out of \<open>n\<close> title tokens. Then the code of the entry is in
  the final score map, whether the index passes scored it or not. The iteration of the
  title loop for this entry adds exactly \<open>k / n * 10\<close> to the score of its code: in
  every arithmetic, with its own quotient, product and sum, and so in the arithmetic
  that does not round. There, the final score of the code is its score after the
  index passes plus the bonuses of all entries with that code, which is the one
  bonus \<open>k / n * 10\<close> when no other entry shares the code.
\<close>

theorem title_bonus:
  assumes "e \<in> set (socCodes eng)"
    and "k = titleMatchCountOf (toLowerCase (queryTextOf p)) (tokenize (title e))"
    and "0 < k"
  shows "code e \<in> fst ` set (allScores ar eng p)
    \<and> k \<le> length (tokenize (title e))
    \<and> (\<forall>pre post. socCodes eng = pre @ e # post \<longrightarrow>
          allScores ar eng p =
            titlePass ar (toLowerCase (queryTextOf p)) post
              (addScore ar (titlePass ar (toLowerCase (queryTextOf p)) pre (indexScores ar eng p))
                 (code e) (fmul ar (fdiv ar (real k) (real (length (tokenize (title e))))) 10)))
    \<and> (\<forall>pre post. socCodes eng = pre @ e # post \<longrightarrow>
          allScores exact eng p =
            titlePass exact (toLowerCase (queryTextOf p)) post
              (addScore exact (titlePass exact (toLowerCase (queryTextOf p)) pre (indexScores exact eng p))
                 (code e) (real k / real (length (tokenize (title e))) * 10)))
    \<and> scoreOf (allScores exact eng p) (code e) =
          scoreOf (indexScores exact eng p) (code e) +
          (\<Sum>e'\<leftarrow>filter (\<lambda>e'. code e' = code e) (socCodes eng).
             real (titleMatchCountOf (toLowerCase (queryTextOf p)) (tokenize (title e')))
               / real (length (tokenize (title e'))) * 10)
    \<and> (filter (\<lambda>e'. code e' = code e) (socCodes eng) = [e] \<longrightarrow>
          scoreOf (allScores exact eng p) (code e) =
            scoreOf (indexScores exact eng p) (code e) + real k / real (length (tokenize (title e))) * 10)"
proof -
  let ?ql = "toLowerCase (queryTextOf p)"
  have "code e \<in> {code e' | e'. e' \<in> set (socCodes eng)
            \<and> 0 < titleMatchCountOf ?ql (tokenize (title e'))}"
    using assms by blast
  then have mem: "code e \<in> fst ` set (allScores ar eng p)"
    by (simp only: allScores_def Let_def keys_titlePass) blast
  have le: "k \<le> length (tokenize (title e))"
    unfolding assms(2) by (rule titleMatchCountOf_le)
  have sum: "scoreOf (allScores exact eng p) (code e) =
          scoreOf (indexScores exact eng p) (code e) +
          (\<Sum>e'\<leftarrow>filter (\<lambda>e'. code e' = code e) (socCodes eng).
             real (titleMatchCountOf ?ql (tokenize (title e')))
               / real (length (tokenize (title e'))) * 10)"
    by (simp only: allScores_def Let_def scoreOf_titlePass)
  have one: "scoreOf (allScores exact eng p) (code e) =
            scoreOf (indexScores exact eng p) (code e) + real k / real (length (tokenize (title e))) * 10"
    if "filter (\<lambda>e'. code e' = code e) (socCodes eng) = [e]"
    using sum that assms(2) by simp
  have step: "allScores a eng p =
            titlePass a ?ql post
              (addScore a (titlePass a ?ql pre (indexScores a eng p))
                 (code e) (fmul a (fdiv a (real k) (real (length (tokenize (title e))))) 10))"
    if "socCodes eng = pre @ e # post" for pre post a
  proof -
    have "pre @ e # post = pre @ [e] @ post" by simp
    then have "allScores a eng p =
        titlePass a ?ql post (titlePass a ?ql [e] (titlePass a ?ql pre (indexScores a eng p)))"
      using that by (simp only: allScores_def Let_def titlePass_append)
    also have "titlePass a ?ql [e] (titlePass a ?ql pre (indexScores a eng p)) =
        addScore a (titlePass a ?ql pre (indexScores a eng p)) (code e)
          (fmul a (fdiv a (real k) (real (length (tokenize (title e))))) 10)"
      using assms(2,3) by (simp add: Let_def)
    finally show ?thesis .
  qed
  have stepx: "allScores exact eng p =
            titlePass exact ?ql post
              (addScore exact (titlePass exact ?ql pre (indexScores exact eng p))
                 (code e) (real k / real (length (tokenize (title e))) * 10))"
    if "socCodes eng = pre @ e # post" for pre post
    using step [OF that, of exact] by (simp only: exact_arith)
  from mem le step [where a = ar] stepx sum one show ?thesis by blast
qed

theorem title_bonus_witness:
  "exArt \<in> set (socCodes (loadEngine exMixed))
   \<and> (1::nat) = titleMatchCountOf (toLowerCase (queryTextOf (exQuery ''Smart''))) (tokenize (title exArt))
   \<and> (0::nat) < 1
   \<and> socCodes (loadEngine exMixed) = [] @ exArt # [exNurses]
   \<and> filter (\<lambda>e'. code e' = code exArt) (socCodes (loadEngine exMixed)) = [exArt]
   \<and> indexScores exact (loadEngine exMixed) (exQuery ''Smart'') = []
   \<and> code exArt \<in> fst ` set (allScores exact (loadEngine exMixed) (exQuery ''Smart''))
   \<and> scoreOf (allScores exact (loadEngine exMixed) (exQuery ''Smart'')) (code exArt) = 5"
proof -
  have h1: "exArt \<in> set (socCodes (loadEngine exMixed))"
    by (simp add: ex_mixed_socs)
  have h2: "(1::nat) = titleMatchCountOf (toLowerCase (queryTextOf (exQuery ''Smart''))) (tokenize (title exArt))"
    by (simp add: ex_smart_query ex_smart_titles)
  have h3: "(0::nat) < 1" by simp
  have h4: "socCodes (loadEngine exMixed) = [] @ exArt # [exNurses]"
    by (simp add: ex_mixed_socs)
  have h5: "filter (\<lambda>e'. code e' = code exArt) (socCodes (loadEngine exMixed)) = [exArt]"
    by (simp add: ex_mixed_socs) (simp add: exArt_def exNurses_def)
  note t = title_bonus [OF h1 h2 h3, where ar = exact]
  from t have m: "code exArt \<in> fst ` set (allScores exact (loadEngine exMixed) (exQuery ''Smart''))"
    by blast
  from t h5 have "scoreOf (allScores exact (loadEngine exMixed) (exQuery ''Smart'')) (code exArt) =
      scoreOf (indexScores exact (loadEngine exMixed) (exQuery ''Smart'')) (code exArt)
        + real 1 / real (length (tokenize (title exArt))) * 10"
    by blast
  then have s: "scoreOf (allScores exact (loadEngine exMixed) (exQuery ''Smart'')) (code exArt) = 5"
    by (simp add: ex_smart_indexScores ex_smart_titles scoreOf_def)
  from h1 h2 h3 h4 h5 ex_smart_indexScores m s show ?thesis by blast
qed

section \<open>Claims about the optional AI ranking\<close>

lemma ai_success:
  assumes "matchSocCodesWithAI OPENAI_API_KEY JSON_parse service eng programData topN = Some result"
  shows "\<exists>content jsonMatch items.
           OPENAI_API_KEY \<noteq> []
         \<and> service programData topN = Content content
         \<and> matchJsonArray content = Some jsonMatch
         \<and> JSON_parse jsonMatch = Some (map Some items)
         \<and> result = map (enrich eng) items"
proof -
  have key: "OPENAI_API_KEY \<noteq> []"
    using assms by (auto simp: matchSocCodesWithAI_def)
  obtain content where c: "service programData topN = Content content"
    using assms key by (cases "service programData topN") (simp_all add: matchSocCodesWithAI_def)
  obtain jsonMatch where j: "matchJsonArray content = Some jsonMatch"
    using assms key c by (cases "matchJsonArray content") (simp_all add: matchSocCodesWithAI_def)
  obtain aiMatches where p: "JSON_parse jsonMatch = Some aiMatches"
    using assms key c j by (cases "JSON_parse jsonMatch") (simp_all add: matchSocCodesWithAI_def)
  have n: "None \<notin> set aiMatches"
    and r: "result = map (\<lambda>m. enrich eng (the m)) aiMatches"
    using assms key c j p by (auto simp: matchSocCodesWithAI_def split: if_splits)
  have "map Some (map the aiMatches) = aiMatches"
    using n by (induction aiMatches) auto
  moreover have "result = map (enrich eng) (map the aiMatches)"
    using r by (simp add: comp_def)
  ultimately show ?thesis using key c j p by metis
qed

lemma ex_json_match: "matchJsonArray exContent = Some exJson"
  by code_simp

lemma ex_ai_byCode:
  "socByCode (loadEngine exAiTaxonomy) ''29-1141'' = Some exNurses"
  "socByCode (loadEngine exAiTaxonomy) ''99-9999'' = None"
  "socByCode (loadEngine exAiTaxonomy) ''11-1011'' = Some exUntitled"
  by code_simp+

lemma ex_ai_call:
  "matchSocCodesWithAI ''sk-test'' exParse exService (loadEngine exAiTaxonomy) (exQuery ''Nursing'') 3
     = Some (map (enrich (loadEngine exAiTaxonomy)) exItems)"
  by (simp add: matchSocCodesWithAI_def exService_def ex_json_match exParse_def comp_def)

text \<open>
  C9, as the code has it. Each element of a successful AI reply gives one enriched
  result, with the code and the reason of the element and the source \<open>ai\<close>. When the code
  is a key of the local code map the result is verified, its group labels are the
  local ones, and its title is the local title if that is not empty; a local entry
  with an empty title leaves the title of the element in place. When the code is
  missing from the map (or the element has no code) the result is not verified,
  keeps the title of the element and has empty group labels.
\<close>

theorem ai_enrichment:
  assumes "matchSocCodesWithAI OPENAI_API_KEY JSON_parse service eng programData topN = Some result"
  shows "\<exists>items.
      (\<exists>content jsonMatch. service programData topN = Content content
          \<and> matchJsonArray content = Some jsonMatch
          \<and> JSON_parse jsonMatch = Some (map Some items))
    \<and> length result = length items
    \<and> (\<forall>i < length items.
          ai_code (result ! i) = m_code (items ! i)
        \<and> ai_reason (result ! i) = m_reason (items ! i)
        \<and> ai_source (result ! i) = ''ai''
        \<and> (\<forall>c l. m_code (items ! i) = Some c \<and> socByCode eng c = Some l \<longrightarrow>
              verified (result ! i)
            \<and> (title l \<noteq> [] \<longrightarrow> ai_title (result ! i) = Some (title l))
            \<and> (title l = [] \<longrightarrow> ai_title (result ! i) = m_title (items ! i))
            \<and> ai_majorGroup (result ! i) = orEmpty (majorGroup l)
            \<and> ai_minorGroup (result ! i) = orEmpty (minorGroup l)
            \<and> ai_broadGroup (result ! i) = orEmpty (broadGroup l))
        \<and> ((\<forall>c. m_code (items ! i) = Some c \<longrightarrow> socByCode eng c = None) \<longrightarrow>
              \<not> verified (result ! i)
            \<and> ai_title (result ! i) = m_title (items ! i)
            \<and> ai_majorGroup (result ! i) = []
            \<and> ai_minorGroup (result ! i) = []
            \<and> ai_broadGroup (result ! i) = []))"
proof -
  from ai_success [OF assms] obtain content jsonMatch items
    where c: "service programData topN = Content content"
      and j: "matchJsonArray content = Some jsonMatch"
      and p: "JSON_parse jsonMatch = Some (map Some items)"
      and r: "result = map (enrich eng) items"
    by blast
  have "ai_code (result ! i) = m_code (items ! i)
        \<and> ai_reason (result ! i) = m_reason (items ! i)
        \<and> ai_source (result ! i) = ''ai''
        \<and> (\<forall>c l. m_code (items ! i) = Some c \<and> socByCode eng c = Some l \<longrightarrow>
              verified (result ! i)
            \<and> (title l \<noteq> [] \<longrightarrow> ai_title (result ! i) = Some (title l))
            \<and> (title l = [] \<longrightarrow> ai_title (result ! i) = m_title (items ! i))
            \<and> ai_majorGroup (result ! i) = orEmpty (majorGroup l)
            \<and> ai_minorGroup (result ! i) = orEmpty (minorGroup l)
            \<and> ai_broadGroup (result ! i) = orEmpty (broadGroup l))
        \<and> ((\<forall>c. m_code (items ! i) = Some c \<longrightarrow> socByCode eng c = None) \<longrightarrow>
              \<not> verified (result ! i)
            \<and> ai_title (result ! i) = m_title (items ! i)
            \<and> ai_majorGroup (result ! i) = []
            \<and> ai_minorGroup (result ! i) = []
            \<and> ai_broadGroup (result ! i) = [])"
    if "i < length items" for i
  proof -
    have ri: "result ! i = enrich eng (items ! i)" using that r by simp
    show ?thesis
    proof (cases "m_code (items ! i)")
      case None
      then show ?thesis by (simp add: ri enrich_def)
    next
      case (Some c)
      then show ?thesis
        by (cases "socByCode eng c") (simp_all add: ri enrich_def)
    qed
  qed
  moreover have "length result = length items" using r by simp
  ultimately show ?thesis using c j p by blast
qed

theorem ai_enrichment_witness:
  "matchSocCodesWithAI ''sk-test'' exParse exService (loadEngine exAiTaxonomy) (exQuery ''Nursing'') 3
     = Some (map (enrich (loadEngine exAiTaxonomy)) exItems)
   \<and> (0::nat) < length exItems \<and> 1 < length exItems
   \<and> m_code (exItems ! 0) = Some ''29-1141''
   \<and> socByCode (loadEngine exAiTaxonomy) ''29-1141'' = Some exNurses
   \<and> title exNurses \<noteq> []
   \<and> verified (map (enrich (loadEngine exAiTaxonomy)) exItems ! 0)
   \<and> ai_title (map (enrich (loadEngine exAiTaxonomy)) exItems ! 0) = Some (title exNurses)
   \<and> m_code (exItems ! 1) = Some ''99-9999''
   \<and> socByCode (loadEngine exAiTaxonomy) ''99-9999'' = None
   \<and> \<not> verified (map (enrich (loadEngine exAiTaxonomy)) exItems ! 1)
   \<and> ai_title (map (enrich (loadEngine exAiTaxonomy)) exItems ! 1) = m_title (exItems ! 1)"
proof -
  let ?E = "loadEngine exAiTaxonomy"
  let ?R = "map (enrich ?E) exItems"
  from ai_enrichment [OF ex_ai_call] obtain items
    where a: "\<exists>content jsonMatch. exService (exQuery ''Nursing'') 3 = Content content
          \<and> matchJsonArray content = Some jsonMatch
          \<and> exParse jsonMatch = Some (map Some items)"
      and k: "\<forall>c l. m_code (items ! 0) = Some c \<and> socByCode ?E c = Some l \<longrightarrow>
              0 < length items \<longrightarrow>
              verified (?R ! 0) \<and> (title l \<noteq> [] \<longrightarrow> ai_title (?R ! 0) = Some (title l))"
      and u: "(\<forall>c. m_code (items ! 1) = Some c \<longrightarrow> socByCode ?E c = None) \<longrightarrow>
              1 < length items \<longrightarrow>
              \<not> verified (?R ! 1) \<and> ai_title (?R ! 1) = m_title (items ! 1)"
    by blast
  from a have "exParse exJson = Some (map Some items)"
    by (simp add: exService_def ex_json_match)
  then have "map Some items = map Some exItems" by (simp add: exParse_def)
  then have i: "items = exItems" by (simp add: inj_map_eq_map)
  have l: "(0::nat) < length exItems" "1 < length exItems" by (simp_all add: exItems_def)
  have c0: "m_code (exItems ! 0) = Some ''29-1141''"
    and c1: "m_code (exItems ! 1) = Some ''99-9999''"
    by (simp_all add: exItems_def)
  have t: "title exNurses \<noteq> []" by (simp add: exNurses_def)
  from k i c0 ex_ai_byCode(1) l(1) t
  have "verified (?R ! 0) \<and> ai_title (?R ! 0) = Some (title exNurses)" by blast
  moreover from u i c1 ex_ai_byCode(2) l(2)
  have "\<not> verified (?R ! 1) \<and> ai_title (?R ! 1) = m_title (exItems ! 1)" by simp
  ultimately show ?thesis using ex_ai_call l c0 c1 t ex_ai_byCode(1,2) by blast
qed

text \<open>
  C9 as stated fails: the third element of the reply names the code of a local
  entry whose title is empty. The result is verified, and its title is the title the
  reply supplied, not the local one.
\<close>

theorem empty_local_title_counterexample:
  "matchSocCodesWithAI ''sk-test'' exParse exService (loadEngine exAiTaxonomy) (exQuery ''Nursing'') 3
     = Some (map (enrich (loadEngine exAiTaxonomy)) exItems)
   \<and> m_code (exItems ! 2) = Some ''11-1011''
   \<and> m_title (exItems ! 2) = Some ''Chief Executives''
   \<and> socByCode (loadEngine exAiTaxonomy) ''11-1011'' = Some exUntitled
   \<and> title exUntitled = []
   \<and> verified (map (enrich (loadEngine exAiTaxonomy)) exItems ! 2)
   \<and> ai_title (map (enrich (loadEngine exAiTaxonomy)) exItems ! 2) = Some ''Chief Executives''
   \<and> ai_title (map (enrich (loadEngine exAiTaxonomy)) exItems ! 2) \<noteq> Some (title exUntitled)"
proof -
  have "map (enrich (loadEngine exAiTaxonomy)) exItems ! 2
          = enrich (loadEngine exAiTaxonomy) (exItems ! 2)"
    by (simp add: exItems_def)
  moreover have "exItems ! 2
          = \<lparr>m_code = Some ''11-1011'', m_title = Some ''Chief Executives'', m_reason = None\<rparr>"
    by (simp add: exItems_def)
  moreover have "title exUntitled = []" by (simp add: exUntitled_def)
  ultimately show ?thesis
    using ex_ai_call ex_ai_byCode(3) by (simp add: enrich_def)
qed

text \<open>
  C8. When there is no API key, or the call to the external service fails (\<open>fetch\<close>
  rejects, as on a network error or a timeout of the transport; the body is not JSON;
  the content holds no bracketed array; the array text does not parse, or holds a
  \<open>null\<close> element), \<open>matchSocCodesWithAI\<close> returns \<open>null\<close>, and the match endpoint answers
  with status 200, the local matches as \<open>matchSocCodes\<close> computes them and \<open>aiMatches\<close>
  \<open>null\<close>; no exception reaches the caller.
\<close>

theorem ai_failure_falls_back:
  assumes "req_program req = Some program"
    and "topN = (case req_topN req of None \<Rightarrow> 10 | Some n \<Rightarrow> n)"
    and "OPENAI_API_KEY = []
       \<or> service program topN = FetchRejects
       \<or> service program topN = BodyRejects
       \<or> (\<exists>content. service program topN = Content content
             \<and> (matchJsonArray content = None
                \<or> (\<exists>jsonMatch. matchJsonArray content = Some jsonMatch
                      \<and> (JSON_parse jsonMatch = None
                         \<or> (\<exists>aiMatches. JSON_parse jsonMatch = Some aiMatches
                               \<and> None \<in> set aiMatches)))))"
  shows "matchSocCodesWithAI OPENAI_API_KEY JSON_parse service eng program topN = None
    \<and> socMatchHandler ar OPENAI_API_KEY JSON_parse service eng req =
        Json \<lparr>localMatches = matchSocCodes ar eng program topN,
              aiMatches = None,
              aiAvailable = (OPENAI_API_KEY \<noteq> [])\<rparr>"
proof -
  have n: "matchSocCodesWithAI OPENAI_API_KEY JSON_parse service eng program topN = None"
    using assms(3) by (auto simp: matchSocCodesWithAI_def)
  have "socMatchHandler ar OPENAI_API_KEY JSON_parse service eng req =
        Json \<lparr>localMatches = matchSocCodes ar eng program topN,
              aiMatches = None,
              aiAvailable = (OPENAI_API_KEY \<noteq> [])\<rparr>"
    using assms(1) n by (simp add: socMatchHandler_def Let_def assms(2) [symmetric])
  with n show ?thesis by simp
qed

theorem ai_failure_falls_back_witness:
  "req_program \<lparr>req_program = Some (exQuery ''Healthcare''), req_topN = None, req_useAI = Some True\<rparr>
     = Some (exQuery ''Healthcare'')
   \<and> (10::int) = (case req_topN \<lparr>req_program = Some (exQuery ''Healthcare''), req_topN = None,
                                 req_useAI = Some True\<rparr> of None \<Rightarrow> 10 | Some n \<Rightarrow> n)
   \<and> exDownService (exQuery ''Healthcare'') 10 = FetchRejects
   \<and> socMatchHandler exact ''sk-test'' exParse exDownService (loadEngine exHealth)
        \<lparr>req_program = Some (exQuery ''Healthcare''), req_topN = None, req_useAI = Some True\<rparr>
      = Json \<lparr>localMatches = matchSocCodes exact (loadEngine exHealth) (exQuery ''Healthcare'') 10,
              aiMatches = None,
              aiAvailable = True\<rparr>"
proof -
  let ?req = "\<lparr>req_program = Some (exQuery ''Healthcare''), req_topN = None, req_useAI = Some True\<rparr>"
  have h1: "req_program ?req = Some (exQuery ''Healthcare'')" by simp
  have h2: "(10::int) = (case req_topN ?req of None \<Rightarrow> 10 | Some n \<Rightarrow> n)" by simp
  have d: "exDownService (exQuery ''Healthcare'') 10 = FetchRejects"
    by (simp add: exDownService_def)
  then have h3: "''sk-test'' = []
       \<or> exDownService (exQuery ''Healthcare'') 10 = FetchRejects
       \<or> exDownService (exQuery ''Healthcare'') 10 = BodyRejects
       \<or> (\<exists>content. exDownService (exQuery ''Healthcare'') 10 = Content content
             \<and> (matchJsonArray content = None
                \<or> (\<exists>jsonMatch. matchJsonArray content = Some jsonMatch
                      \<and> (exParse jsonMatch = None
                         \<or> (\<exists>aiMatches. exParse jsonMatch = Some aiMatches
                               \<and> None \<in> set aiMatches)))))"
    by blast
  from ai_failure_falls_back
    [where req = ?req and program = "exQuery ''Healthcare''" and topN = 10
       and OPENAI_API_KEY = "''sk-test''" and service = exDownService
       and JSON_parse = exParse and eng = "loadEngine exHealth" and ar = exact, OF h1 h2 h3]
  have "socMatchHandler exact ''sk-test'' exParse exDownService (loadEngine exHealth) ?req
      = Json \<lparr>localMatches = matchSocCodes exact (loadEngine exHealth) (exQuery ''Healthcare'') 10,
              aiMatches = None,
              aiAvailable = True\<rparr>"
    by simp
  with h1 h2 d show ?thesis by blast
qed


end
